theory Spec2Isabelle
  imports Complex_Main
begin

section \<open>Values, errors and matrices\<close>

text \<open>
  The solver of \<^verbatim>\<open>hw3c.py\<close> works on Python lists of lists of numbers. The input
  matrices hold real numbers. The working values of the Cholesky path are Python numbers
  that may become complex: in Python 3 a negative number raised to the power \<open>0.5\<close> is
  the principal complex root, not an exception. Real numbers embed in \<^typ>\<open>complex\<close>
  with the same \<open>+\<close>, \<open>-\<close>, \<open>*\<close> and \<open>/\<close>, and \<^const>\<open>csqrt\<close> is the principal root,
  so the working values are modelled as \<^typ>\<open>complex\<close>. Arithmetic is exact: rounding
  is not modelled.

  Every exception of the source is a value: \<open>Inl e\<close> in a result \<open>error + 'a\<close>.
\<close>

datatype error = IndexError | ZeroDivisionError | DimensionMismatch

text \<open>
  The right-hand side as the split of the augmented matrix hands it over: a flat list of
  numbers, or a nested column (a list whose items are lists).
\<close>

datatype rhs = Flat "real list" | Nested "real list list"

text \<open>
  \<^verbatim>\<open>if isinstance(vector[0], list): vector = [item for sublist in vector for item in sublist]\<close>
  (lines 74-75 and 159-160). \<^verbatim>\<open>vector[0]\<close> raises on an empty list.
\<close>

fun flatten_vector :: "rhs \<Rightarrow> error + real list" where
  "flatten_vector (Flat []) = Inl IndexError"
| "flatten_vector (Flat (x # xs)) = Inr (x # xs)"
| "flatten_vector (Nested []) = Inl IndexError"
| "flatten_vector (Nested (r # rs)) = Inr (concat (r # rs))"

text \<open>
  \<^verbatim>\<open>[[matrix[j][i] for j in range(len(matrix))] for i in range(len(matrix[0]))]\<close>
  (lines 35 and 124). \<^verbatim>\<open>matrix[0]\<close> raises on an empty matrix and \<^verbatim>\<open>matrix[j][i]\<close>
  raises when row \<open>j\<close> is shorter than row \<open>0\<close>; longer rows are cut.
\<close>

definition compute_transpose :: "'a list list \<Rightarrow> error + 'a list list" where
  "compute_transpose matrix =
     (case matrix of
        [] \<Rightarrow> Inl IndexError
      | row0 # _ \<Rightarrow>
          if \<exists>r \<in> set matrix. length r < length row0 then Inl IndexError
          else Inr (map (\<lambda>i. map (\<lambda>j. matrix ! j ! i) [0..<length matrix])
                        [0..<length row0]))"

section \<open>Triangular solves\<close>

text \<open>
  \<^verbatim>\<open>forward_substitution\<close> (lines 37-52). The loop runs over \<open>range(n)\<close> and updates
  \<open>y\<close> in place. In \<^verbatim>\<open>(vector[i] - sum(lower[i][j] * y[j] for j in range(i))) / lower[i][i]\<close>
  the reads of \<open>lower\<close> come before the division, so an index out of range is reported
  before a zero divisor.
\<close>

fun forward_loop ::
  "complex list list \<Rightarrow> complex list \<Rightarrow> complex list \<Rightarrow> nat list \<Rightarrow> error + complex list" where
  "forward_loop lower vector y [] = Inr y"
| "forward_loop lower vector y (i # is) =
     (if length lower \<le> i \<or> length (lower ! i) \<le> i then Inl IndexError
      else if lower ! i ! i = 0 then Inl ZeroDivisionError
      else forward_loop lower vector
             (y[i := (vector ! i - (\<Sum>j\<leftarrow>[0..<i]. lower ! i ! j * y ! j)) / lower ! i ! i]) is)"

definition forward_substitution :: "complex list list \<Rightarrow> complex list \<Rightarrow> error + complex list" where
  "forward_substitution lower vector =
     (let n = length vector; y = replicate n 0
      in forward_loop lower vector y [0..<n])"

text \<open>
  \<^verbatim>\<open>backward_substitution\<close> (lines 54-69). The loop runs over \<open>range(n - 1, -1, -1)\<close>;
  the sum reads \<open>upper[i][j]\<close> for \<open>i < j < n\<close>.
\<close>

fun backward_loop ::
  "complex list list \<Rightarrow> complex list \<Rightarrow> nat \<Rightarrow> complex list \<Rightarrow> nat list \<Rightarrow> error + complex list" where
  "backward_loop upper vector n x [] = Inr x"
| "backward_loop upper vector n x (i # is) =
     (if length upper \<le> i \<or> length (upper ! i) < n then Inl IndexError
      else if upper ! i ! i = 0 then Inl ZeroDivisionError
      else backward_loop upper vector n
             (x[i := (vector ! i - (\<Sum>j\<leftarrow>[Suc i..<n]. upper ! i ! j * x ! j)) / upper ! i ! i]) is)"

definition backward_substitution :: "complex list list \<Rightarrow> complex list \<Rightarrow> error + complex list" where
  "backward_substitution upper vector =
     (let n = length vector; x = replicate n 0
      in backward_loop upper vector n x (rev [0..<n]))"

section \<open>Cholesky factorisation\<close>

text \<open>
  The body of the inner loop (lines 83-88): the value stored in \<open>lower[i][j]\<close>.
  \<open>lower\<close> is \<open>size \<times> size\<close> and \<open>j \<le> i < size\<close>, so only \<^verbatim>\<open>matrix[i][j]\<close> can be out
  of range; it is read before the divisor \<^verbatim>\<open>lower[j][j]\<close>.
\<close>

definition cholesky_entry ::
  "real list list \<Rightarrow> complex list list \<Rightarrow> nat \<Rightarrow> nat \<Rightarrow> error + complex" where
  "cholesky_entry matrix lower i j =
     (if length (matrix ! i) \<le> j then Inl IndexError
      else if i = j then
        (let sum_sq = (\<Sum>k\<leftarrow>[0..<j]. (lower ! i ! k)\<^sup>2)
         in Inr (csqrt (of_real (matrix ! i ! j) - sum_sq)))
      else
        (let sum_prod = (\<Sum>k\<leftarrow>[0..<j]. lower ! i ! k * lower ! j ! k)
         in if lower ! j ! j = 0 then Inl ZeroDivisionError
            else Inr ((of_real (matrix ! i ! j) - sum_prod) / lower ! j ! j)))"

text \<open>The inner loop \<^verbatim>\<open>for j in range(i + 1)\<close> and the outer loop \<^verbatim>\<open>for i in range(size)\<close>.\<close>

fun cholesky_row ::
  "real list list \<Rightarrow> complex list list \<Rightarrow> nat \<Rightarrow> nat list \<Rightarrow> error + complex list list" where
  "cholesky_row matrix lower i [] = Inr lower"
| "cholesky_row matrix lower i (j # js) =
     (case cholesky_entry matrix lower i j of
        Inl e \<Rightarrow> Inl e
      | Inr v \<Rightarrow> cholesky_row matrix (lower[i := (lower ! i)[j := v]]) i js)"

fun cholesky_rows ::
  "real list list \<Rightarrow> complex list list \<Rightarrow> nat list \<Rightarrow> error + complex list list" where
  "cholesky_rows matrix lower [] = Inr lower"
| "cholesky_rows matrix lower (i # is) =
     (case cholesky_row matrix lower i [0..<Suc i] of
        Inl e \<Rightarrow> Inl e
      | Inr lower' \<Rightarrow> cholesky_rows matrix lower' is)"

text \<open>Lines 77-88: the factor of the coefficient block.\<close>

definition cholesky_factor :: "real list list \<Rightarrow> error + complex list list" where
  "cholesky_factor matrix =
     (let size = length matrix; lower = replicate size (replicate size 0)
      in cholesky_rows matrix lower [0..<size])"

text \<open>
  \<^verbatim>\<open>decompose_cholesky\<close> (lines 6-97). \<^verbatim>\<open>gs.separateAugmented\<close> belongs to a module
  that is not part of the sources at hand, so the split is a parameter \<open>sep\<close>.
\<close>

definition decompose_cholesky ::
  "(real list list \<Rightarrow> error + real list list \<times> rhs) \<Rightarrow> real list list
     \<Rightarrow> error + complex list \<times> complex list list \<times> complex list list" where
  "decompose_cholesky sep matrix_aug =
     (case sep matrix_aug of
        Inl e \<Rightarrow> Inl e
      | Inr (matrix, vector0) \<Rightarrow>
     (case flatten_vector vector0 of
        Inl e \<Rightarrow> Inl e
      | Inr vector \<Rightarrow>
     (case cholesky_factor matrix of
        Inl e \<Rightarrow> Inl e
      | Inr lower \<Rightarrow>
     (case compute_transpose lower of
        Inl e \<Rightarrow> Inl e
      | Inr upper \<Rightarrow>
     (case forward_substitution lower (map of_real vector) of
        Inl e \<Rightarrow> Inl e
      | Inr y \<Rightarrow>
     (case backward_substitution upper y of
        Inl e \<Rightarrow> Inl e
      | Inr x \<Rightarrow> Inr (x, lower, upper)))))))"

text \<open>
  Modelled from the spec: \<^verbatim>\<open>Gauss_Seidel.separateAugmented\<close> is not among the sources.
  The spec (4.1) gives \<open>splitAugmented(Aug) \<rightarrow> (A, b)\<close> with \<open>A\<close> all columns except the
  last and \<open>b\<close> the last column as a vector, for an input with at least one row and
  width at least 2.
\<close>

definition separateAugmented :: "real list list \<Rightarrow> error + real list list \<times> rhs" where
  "separateAugmented Aaug =
     (if Aaug = [] \<or> (\<exists>r \<in> set Aaug. length r < 2) then Inl DimensionMismatch
      else Inr (map butlast Aaug, Flat (map last Aaug)))"

section \<open>The classifier\<close>

text \<open>
  The random source is explicit: \<open>u k\<close> is the \<open>k\<close>-th value of \<^verbatim>\<open>random.random()\<close>
  and the state is the number of values consumed. The standard library documents
  \<^verbatim>\<open>random.uniform(a, b)\<close> as \<open>a + (b - a) * random()\<close>.
\<close>

definition random_uniform :: "(nat \<Rightarrow> real) \<Rightarrow> real \<Rightarrow> real \<Rightarrow> nat \<Rightarrow> real \<times> nat" where
  "random_uniform u a b k = (a + (b - a) * u k, Suc k)"

text \<open>\<^verbatim>\<open>[random.uniform(-1, 1) for _ in range(n)]\<close> (line 132).\<close>

fun random_vector :: "(nat \<Rightarrow> real) \<Rightarrow> nat \<Rightarrow> nat \<Rightarrow> real list \<times> nat" where
  "random_vector u 0 k = ([], k)"
| "random_vector u (Suc n) k =
     (let (x, k') = random_uniform u (- 1) 1 k;
          (xs, k'') = random_vector u n k'
      in (x # xs, k''))"

text \<open>Lines 133-136.\<close>

definition quadratic_form :: "real list list \<Rightarrow> real list \<Rightarrow> real" where
  "quadratic_form matrix v =
     (\<Sum>i\<leftarrow>[0..<length matrix]. v ! i * (\<Sum>j\<leftarrow>[0..<length matrix]. matrix ! i ! j * v ! j))"

text \<open>
  \<^verbatim>\<open>check_symmetric_positive_definite\<close> (lines 100-138). A matrix equal to its
  transpose is square, so the reads of the quadratic form are in range.
\<close>

definition check_symmetric_positive_definite ::
  "(nat \<Rightarrow> real) \<Rightarrow> real list list \<Rightarrow> nat \<Rightarrow> error + bool \<times> nat" where
  "check_symmetric_positive_definite u matrix k =
     (case compute_transpose matrix of
        Inl e \<Rightarrow> Inl e
      | Inr transpose_matrix \<Rightarrow>
          if matrix \<noteq> transpose_matrix then Inr (False, k)
          else (let (random_vector, k') = random_vector u (length matrix) k
                in Inr (0 < quadratic_form matrix random_vector, k')))"

section \<open>The dispatcher\<close>

text \<open>
  The body of the loop of \<^verbatim>\<open>execute_main\<close> (lines 156-167): the solution, the name of
  the method and the state of the random source. \<^verbatim>\<open>dm.Doolittle\<close> is an external
  solver and a parameter here.
\<close>

definition solve_matrix ::
  "(real list list \<Rightarrow> error + real list list \<times> rhs) \<Rightarrow> (real list list \<Rightarrow> error + complex list)
     \<Rightarrow> (nat \<Rightarrow> real) \<Rightarrow> real list list \<Rightarrow> nat \<Rightarrow> error + (complex list \<times> string) \<times> nat" where
  "solve_matrix sep Doolittle u matrix k =
     (case sep matrix of
        Inl e \<Rightarrow> Inl e
      | Inr (A, b0) \<Rightarrow>
     (case flatten_vector b0 of
        Inl e \<Rightarrow> Inl e
      | Inr b \<Rightarrow>
     (case check_symmetric_positive_definite u A k of
        Inl e \<Rightarrow> Inl e
      | Inr (spd, k') \<Rightarrow>
          if spd then
            (case decompose_cholesky sep matrix of
               Inl e \<Rightarrow> Inl e
             | Inr (solution, _, _) \<Rightarrow> Inr ((solution, ''Cholesky''), k'))
          else
            (case Doolittle matrix of
               Inl e \<Rightarrow> Inl e
             | Inr solution \<Rightarrow> Inr ((solution, ''Doolittle''), k')))))"

definition matrices :: "real list list list" where
  "matrices =
     [[[1, - 1, 3, 2, 15], [- 1, 5, - 5, - 2, - 35], [3, - 5, 19, 3, 94], [2, - 2, 3, 21, 1]],
      [[4, 2, 4, 0, 20], [2, 2, 3, 2, 36], [4, 3, 6, 3, 60], [0, 2, 3, 9, 122]]]"

text \<open>
  The loop \<^verbatim>\<open>for index, matrix in enumerate(matrices, start=1)\<close>: the lines printed
  (index, method, solution) and the exception that ended the run, if any.
\<close>

fun execute_loop ::
  "(real list list \<Rightarrow> error + real list list \<times> rhs) \<Rightarrow> (real list list \<Rightarrow> error + complex list)
     \<Rightarrow> (nat \<Rightarrow> real) \<Rightarrow> (nat \<times> real list list) list \<Rightarrow> nat
     \<Rightarrow> (nat \<times> string \<times> complex list) list \<times> error option" where
  "execute_loop sep Doolittle u [] k = ([], None)"
| "execute_loop sep Doolittle u ((index, matrix) # rest) k =
     (case solve_matrix sep Doolittle u matrix k of
        Inl e \<Rightarrow> ([], Some e)
      | Inr ((solution, method_name), k') \<Rightarrow>
          (let (printed, err) = execute_loop sep Doolittle u rest k'
           in ((index, method_name, solution) # printed, err)))"

definition execute_main ::
  "(real list list \<Rightarrow> error + real list list \<times> rhs) \<Rightarrow> (real list list \<Rightarrow> error + complex list)
     \<Rightarrow> (nat \<Rightarrow> real) \<Rightarrow> nat \<Rightarrow> (nat \<times> string \<times> complex list) list \<times> error option" where
  "execute_main sep Doolittle u k =
     execute_loop sep Doolittle u (zip [1..<Suc (length matrices)] matrices) k"

section \<open>Properties used in the statements\<close>

text \<open>An \<open>n \<times> n\<close> matrix: \<open>n\<close> rows of length \<open>n\<close>.\<close>

definition square_matrix :: "nat \<Rightarrow> 'a list list \<Rightarrow> bool" where
  "square_matrix n M \<longleftrightarrow> length M = n \<and> (\<forall>r \<in> set M. length r = n)"

text \<open>The recurrences of the two substitutions at index \<open>i\<close>.\<close>

definition fwd_eqn :: "complex list list \<Rightarrow> complex list \<Rightarrow> complex list \<Rightarrow> nat \<Rightarrow> bool" where
  "fwd_eqn L b y i \<longleftrightarrow> y ! i = (b ! i - (\<Sum>j\<leftarrow>[0..<i]. L ! i ! j * y ! j)) / L ! i ! i"

definition bwd_eqn :: "complex list list \<Rightarrow> complex list \<Rightarrow> nat \<Rightarrow> complex list \<Rightarrow> nat \<Rightarrow> bool" where
  "bwd_eqn U b n x i \<longleftrightarrow> x ! i = (b ! i - (\<Sum>j\<leftarrow>[Suc i..<n]. U ! i ! j * x ! j)) / U ! i ! i"

text \<open>
  The state of the factorisation loops when the outer loop is at row \<open>i\<close> and the inner
  loop at column \<open>j\<close>: the entries \<open>(a, b)\<close> already assigned, and the equation an
  assigned entry satisfies.
\<close>

definition processed :: "nat \<Rightarrow> nat \<Rightarrow> nat \<Rightarrow> nat \<Rightarrow> bool" where
  "processed i j a b \<longleftrightarrow> (a < i \<and> b \<le> a) \<or> (a = i \<and> b < j)"

definition chol_eqn :: "real list list \<Rightarrow> complex list list \<Rightarrow> nat \<Rightarrow> nat \<Rightarrow> bool" where
  "chol_eqn A L a b \<longleftrightarrow>
     (if a = b then L ! a ! a = csqrt (of_real (A ! a ! a) - (\<Sum>k\<leftarrow>[0..<a]. (L ! a ! k)\<^sup>2))
      else L ! b ! b \<noteq> 0
         \<and> L ! a ! b = (of_real (A ! a ! b) - (\<Sum>k\<leftarrow>[0..<b]. L ! a ! k * L ! b ! k)) / L ! b ! b)"

definition chol_inv :: "nat \<Rightarrow> real list list \<Rightarrow> complex list list \<Rightarrow> nat \<Rightarrow> nat \<Rightarrow> bool" where
  "chol_inv n A L i j \<longleftrightarrow>
     square_matrix n L
     \<and> (\<forall>a<n. \<forall>b<n. if processed i j a b then chol_eqn A L a b else L ! a ! b = 0)"

text \<open>The assigned entries are real and the assigned diagonal entries positive.\<close>

definition chol_real :: "nat \<Rightarrow> complex list list \<Rightarrow> nat \<Rightarrow> nat \<Rightarrow> bool" where
  "chol_real n L i j \<longleftrightarrow>
     (\<forall>a<n. \<forall>b<n. processed i j a b \<longrightarrow> L ! a ! b \<in> \<real> \<and> (a = b \<longrightarrow> 0 < Re (L ! a ! b)))"

text \<open>
  Symmetric and positive definite, for an \<open>n \<times> n\<close> matrix of reals: the quadratic form
  of the classifier is positive at every vector that is not zero.
\<close>

definition symmetric_matrix :: "nat \<Rightarrow> real list list \<Rightarrow> bool" where
  "symmetric_matrix n A \<longleftrightarrow> (\<forall>i<n. \<forall>j<n. A ! i ! j = A ! j ! i)"

definition positive_definite :: "nat \<Rightarrow> real list list \<Rightarrow> bool" where
  "positive_definite n A \<longleftrightarrow>
     (\<forall>v. length v = n \<and> (\<exists>i<n. v ! i \<noteq> 0) \<longrightarrow> 0 < quadratic_form A v)"


lemma square_matrix_nth: "square_matrix n M \<Longrightarrow> i < n \<Longrightarrow> length (M ! i) = n"
  by (simp add: square_matrix_def)

lemma square_matrix_length: "square_matrix n M \<Longrightarrow> length M = n"
  by (simp add: square_matrix_def)

lemma sum_list_upt_cong:
  "(\<And>j. m \<le> j \<Longrightarrow> j < n \<Longrightarrow> f j = g j) \<Longrightarrow> (\<Sum>j\<leftarrow>[m..<n]. f j) = (\<Sum>j\<leftarrow>[m..<n]. (g j :: 'a :: comm_monoid_add))"
  by (rule arg_cong[where f = sum_list], rule map_cong) auto

lemma fwd_eqn_update:
  "a < i \<Longrightarrow> i < length y \<Longrightarrow> fwd_eqn L b (y[i := v]) a = fwd_eqn L b y a"
  unfolding fwd_eqn_def
  by (simp add: sum_list_upt_cong[of 0 a "\<lambda>j. L ! a ! j * y[i := v] ! j" "\<lambda>j. L ! a ! j * y ! j"])

lemma forward_loop_ok:
  assumes "square_matrix n L" "length y = n" "i \<le> n"
    and "\<forall>a<i. fwd_eqn L b y a"
    and "\<forall>a. i \<le> a \<and> a < n \<longrightarrow> L ! a ! a \<noteq> 0"
  shows "\<exists>y'. forward_loop L b y [i..<n] = Inr y' \<and> length y' = n \<and> (\<forall>a<n. fwd_eqn L b y' a)"
  using assms
proof (induction "n - i" arbitrary: i y)
  case 0
  then show ?case by simp
next
  case (Suc d)
  then have lt: "i < n" by simp
  let ?v = "(b ! i - (\<Sum>j\<leftarrow>[0..<i]. L ! i ! j * y ! j)) / L ! i ! i"
  let ?y = "y[i := ?v]"
  have nz: "L ! i ! i \<noteq> 0" using Suc.prems lt by simp
  have len: "length L = n" "length (L ! i) = n"
    using Suc.prems(1) lt by (simp_all add: square_matrix_def)
  have eq_i: "fwd_eqn L b ?y i"
    unfolding fwd_eqn_def using lt Suc.prems(2)
    by (simp add: sum_list_upt_cong[of 0 i "\<lambda>j. L ! i ! j * ?y ! j" "\<lambda>j. L ! i ! j * y ! j"])
  have inv: "\<forall>a<Suc i. fwd_eqn L b ?y a"
  proof (intro allI impI)
    fix a assume "a < Suc i"
    then consider "a < i" | "a = i" by linarith
    then show "fwd_eqn L b ?y a"
    proof cases
      case 1
      then show ?thesis using Suc.prems lt by (simp add: fwd_eqn_update)
    next
      case 2
      then show ?thesis using eq_i by simp
    qed
  qed
  have "\<exists>y'. forward_loop L b ?y [Suc i..<n] = Inr y' \<and> length y' = n \<and> (\<forall>a<n. fwd_eqn L b y' a)"
    using Suc.hyps(1)[of "Suc i" ?y] Suc.hyps(2) Suc.prems lt inv by simp
  moreover have "forward_loop L b y [i..<n] = forward_loop L b ?y [Suc i..<n]"
    using lt nz len by (simp add: upt_conv_Cons)
  ultimately show ?case by simp
qed

lemma forward_loop_zero:
  assumes "square_matrix n L" "i \<le> n" "\<exists>a. i \<le> a \<and> a < n \<and> L ! a ! a = 0"
  shows "forward_loop L b y [i..<n] = Inl ZeroDivisionError"
  using assms
proof (induction "n - i" arbitrary: i y)
  case 0
  then show ?case by auto
next
  case (Suc d)
  then have lt: "i < n" by simp
  have len: "length L = n" "length (L ! i) = n"
    using Suc.prems(1) lt by (simp_all add: square_matrix_def)
  show ?case
  proof (cases "L ! i ! i = 0")
    case True
    then show ?thesis using lt len by (simp add: upt_conv_Cons)
  next
    case False
    then have ex: "\<exists>a. Suc i \<le> a \<and> a < n \<and> L ! a ! a = 0"
      using Suc.prems(3) by (metis Suc_leI le_neq_implies_less)
    have "forward_loop L b y [i..<n] =
      forward_loop L b (y[i := (b ! i - (\<Sum>j\<leftarrow>[0..<i]. L ! i ! j * y ! j)) / L ! i ! i]) [Suc i..<n]"
      using lt False len by (simp add: upt_conv_Cons)
    also have "\<dots> = Inl ZeroDivisionError"
      using Suc.hyps(1)[of "Suc i"] Suc.hyps(2) Suc.prems(1) lt ex by simp
    finally show ?thesis .
  qed
qed


lemma bwd_eqn_update:
  "i < a \<Longrightarrow> bwd_eqn U b n (x[i := v]) a = bwd_eqn U b n x a"
  unfolding bwd_eqn_def
  by (simp add: sum_list_upt_cong[of "Suc a" n "\<lambda>j. U ! a ! j * x[i := v] ! j" "\<lambda>j. U ! a ! j * x ! j"])

lemma backward_loop_ok:
  assumes "square_matrix n U" "length x = n" "i \<le> n"
    and "\<forall>a. i \<le> a \<and> a < n \<longrightarrow> bwd_eqn U b n x a"
    and "\<forall>a<i. U ! a ! a \<noteq> 0"
  shows "\<exists>x'. backward_loop U b n x (rev [0..<i]) = Inr x' \<and> length x' = n \<and> (\<forall>a<n. bwd_eqn U b n x' a)"
  using assms
proof (induction i arbitrary: x)
  case 0
  then show ?case by simp
next
  case (Suc i)
  then have lt: "i < n" by simp
  let ?v = "(b ! i - (\<Sum>j\<leftarrow>[Suc i..<n]. U ! i ! j * x ! j)) / U ! i ! i"
  let ?x = "x[i := ?v]"
  have nz: "U ! i ! i \<noteq> 0" using Suc.prems by simp
  have len: "length U = n" "length (U ! i) = n"
    using Suc.prems(1) lt by (simp_all add: square_matrix_def)
  have eq_i: "bwd_eqn U b n ?x i"
    unfolding bwd_eqn_def using lt Suc.prems(2)
    by (simp add: sum_list_upt_cong[of "Suc i" n "\<lambda>j. U ! i ! j * ?x ! j" "\<lambda>j. U ! i ! j * x ! j"])
  have inv: "\<forall>a. i \<le> a \<and> a < n \<longrightarrow> bwd_eqn U b n ?x a"
  proof (intro allI impI)
    fix a assume a: "i \<le> a \<and> a < n"
    then consider "i < a" | "a = i" by linarith
    then show "bwd_eqn U b n ?x a"
    proof cases
      case 1
      then show ?thesis using Suc.prems(4) a by (simp add: bwd_eqn_update)
    next
      case 2
      then show ?thesis using eq_i by simp
    qed
  qed
  have "\<exists>x'. backward_loop U b n ?x (rev [0..<i]) = Inr x' \<and> length x' = n \<and> (\<forall>a<n. bwd_eqn U b n x' a)"
    using Suc.IH[of ?x] Suc.prems lt inv by simp
  moreover have "backward_loop U b n x (rev [0..<Suc i]) = backward_loop U b n ?x (rev [0..<i])"
    using lt nz len by simp
  ultimately show ?case by simp
qed

lemma backward_loop_zero:
  assumes "square_matrix n U" "i \<le> n" "\<exists>a<i. U ! a ! a = 0"
  shows "backward_loop U b n x (rev [0..<i]) = Inl ZeroDivisionError"
  using assms
proof (induction i arbitrary: x)
  case 0
  then show ?case by simp
next
  case (Suc i)
  then have lt: "i < n" by simp
  have len: "length U = n" "length (U ! i) = n"
    using Suc.prems(1) lt by (simp_all add: square_matrix_def)
  show ?case
  proof (cases "U ! i ! i = 0")
    case True
    then show ?thesis using lt len by simp
  next
    case False
    then have ex: "\<exists>a<i. U ! a ! a = 0"
      using Suc.prems(3) by (metis less_Suc_eq)
    have "backward_loop U b n x (rev [0..<Suc i]) =
      backward_loop U b n (x[i := (b ! i - (\<Sum>j\<leftarrow>[Suc i..<n]. U ! i ! j * x ! j)) / U ! i ! i]) (rev [0..<i])"
      using lt False len by simp
    also have "\<dots> = Inl ZeroDivisionError"
      using Suc.IH Suc.prems(1) lt ex by simp
    finally show ?thesis .
  qed
qed

lemma forward_substitution_ok:
  assumes "square_matrix n L" "length b = n" "\<forall>a<n. L ! a ! a \<noteq> 0"
  shows "\<exists>y. forward_substitution L b = Inr y \<and> length y = n \<and> (\<forall>a<n. fwd_eqn L b y a)"
  using forward_loop_ok[of n L "replicate n 0" 0 b] assms
  by (simp add: forward_substitution_def)

lemma forward_substitution_zero:
  assumes "square_matrix n L" "length b = n" "\<exists>a<n. L ! a ! a = 0"
  shows "forward_substitution L b = Inl ZeroDivisionError"
  using forward_loop_zero[of n L 0 b "replicate n 0"] assms
  by (simp add: forward_substitution_def)

lemma backward_substitution_ok:
  assumes "square_matrix n U" "length b = n" "\<forall>a<n. U ! a ! a \<noteq> 0"
  shows "\<exists>x. backward_substitution U b = Inr x \<and> length x = n \<and> (\<forall>a<n. bwd_eqn U b n x a)"
proof -
  have "\<forall>a. n \<le> a \<and> a < n \<longrightarrow> bwd_eqn U b n (replicate n 0) a" by auto
  then show ?thesis
    using backward_loop_ok[of n U "replicate n 0" n b] assms
    by (simp add: backward_substitution_def)
qed

lemma backward_substitution_zero:
  assumes "square_matrix n U" "length b = n" "\<exists>a<n. U ! a ! a = 0"
  shows "backward_substitution U b = Inl ZeroDivisionError"
  using backward_loop_zero[of n U n b "replicate n 0"] assms
  by (simp add: backward_substitution_def)


lemma sum_list_upt_sum: "(\<Sum>j\<leftarrow>[m..<n]. f j) = (\<Sum>j = m..<n. (f j :: complex))"
  by (simp add: interv_sum_list_conv_sum_set_nat)

text \<open>
  C3. For an \<open>n \<times> n\<close> matrix and a right-hand side of length \<open>n\<close>: each substitution
  raises if and only if some diagonal entry is zero, and the exception is then the
  division by zero. When every diagonal entry is nonzero, forward substitution returns
  \<open>y\<close> with \<open>y[i] = (b[i] - \<Sum>j<i. L[i][j] * y[j]) / L[i][i]\<close> and backward substitution
  returns \<open>x\<close> with \<open>x[i] = (c[i] - \<Sum>j>i. U[i][j] * x[j]) / U[i][i]\<close>. The loops of
  the model fill the indices in increasing and decreasing order.
\<close>

theorem substitution_recurrences:
  assumes "square_matrix n L" "square_matrix n U" "length b = n" "length c = n"
  shows "((\<exists>e. forward_substitution L b = Inl e) \<longleftrightarrow> (\<exists>i<n. L ! i ! i = 0))
       \<and> ((\<exists>i<n. L ! i ! i = 0) \<longrightarrow> forward_substitution L b = Inl ZeroDivisionError)
       \<and> ((\<exists>e. backward_substitution U c = Inl e) \<longleftrightarrow> (\<exists>i<n. U ! i ! i = 0))
       \<and> ((\<exists>i<n. U ! i ! i = 0) \<longrightarrow> backward_substitution U c = Inl ZeroDivisionError)
       \<and> ((\<forall>i<n. L ! i ! i \<noteq> 0) \<longrightarrow>
            (\<exists>y. forward_substitution L b = Inr y \<and> length y = n \<and>
               (\<forall>i<n. y ! i = (b ! i - (\<Sum>j = 0..<i. L ! i ! j * y ! j)) / L ! i ! i)))
       \<and> ((\<forall>i<n. U ! i ! i \<noteq> 0) \<longrightarrow>
            (\<exists>x. backward_substitution U c = Inr x \<and> length x = n \<and>
               (\<forall>i<n. x ! i = (c ! i - (\<Sum>j = Suc i..<n. U ! i ! j * x ! j)) / U ! i ! i)))"
proof -
  have f_zero: "(\<exists>i<n. L ! i ! i = 0) \<longrightarrow> forward_substitution L b = Inl ZeroDivisionError"
    using forward_substitution_zero[of n L b] assms by blast
  have f_ok: "(\<forall>i<n. L ! i ! i \<noteq> 0) \<longrightarrow>
      (\<exists>y. forward_substitution L b = Inr y \<and> length y = n \<and>
         (\<forall>i<n. y ! i = (b ! i - (\<Sum>j = 0..<i. L ! i ! j * y ! j)) / L ! i ! i))"
    using forward_substitution_ok[of n L b] assms
    by (simp add: fwd_eqn_def sum_list_upt_sum)
  have b_zero: "(\<exists>i<n. U ! i ! i = 0) \<longrightarrow> backward_substitution U c = Inl ZeroDivisionError"
    using backward_substitution_zero[of n U c] assms by blast
  have b_ok: "(\<forall>i<n. U ! i ! i \<noteq> 0) \<longrightarrow>
      (\<exists>x. backward_substitution U c = Inr x \<and> length x = n \<and>
         (\<forall>i<n. x ! i = (c ! i - (\<Sum>j = Suc i..<n. U ! i ! j * x ! j)) / U ! i ! i))"
    using backward_substitution_ok[of n U c] assms
    by (simp add: bwd_eqn_def sum_list_upt_sum)
  have f_iff: "(\<exists>e. forward_substitution L b = Inl e) \<longleftrightarrow> (\<exists>i<n. L ! i ! i = 0)"
    using f_zero f_ok by (metis Inl_Inr_False)
  have b_iff: "(\<exists>e. backward_substitution U c = Inl e) \<longleftrightarrow> (\<exists>i<n. U ! i ! i = 0)"
    using b_zero b_ok by (metis Inl_Inr_False)
  show ?thesis
    using f_iff f_zero b_iff b_zero f_ok b_ok by blast
qed

theorem substitution_recurrences_witness:
  "square_matrix 2 [[2, 0], [1, 3 :: complex]] \<and> square_matrix 2 [[2, 1], [0, 3 :: complex]]
   \<and> length [4, 11 :: complex] = 2 \<and> length [7, 6 :: complex] = 2
   \<and> forward_substitution [[2, 0], [1, 3]] [4, 11] = Inr [2, 3]
   \<and> backward_substitution [[2, 1], [0, 3]] [7, 6] = Inr [5 / 2, 2]
   \<and> \<not> (\<exists>e. forward_substitution [[2, 0], [1, 3]] [4, 11] = Inl e)"
  using substitution_recurrences[of 2 "[[2, 0], [1, 3]]" "[[2, 1], [0, 3]]" "[4, 11]" "[7, 6]"]
  by (simp add: square_matrix_def forward_substitution_def backward_substitution_def upt_rec less_Suc_eq numeral_2_eq_2)


lemma sum_list_upt_sum_real: "(\<Sum>j\<leftarrow>[m..<n]. f j) = (\<Sum>j = m..<n. (f j :: real))"
  by (simp add: interv_sum_list_conv_sum_set_nat)

lemma compute_transpose_square:
  assumes "square_matrix n M" "0 < n"
  shows "compute_transpose M = Inr (map (\<lambda>i. map (\<lambda>j. M ! j ! i) [0..<n]) [0..<n])"
proof -
  obtain r rs where M: "M = r # rs"
    using assms by (cases M) (auto simp: square_matrix_def)
  have "length r = n" "length M = n" "\<forall>q \<in> set M. length q = n"
    using assms M by (auto simp: square_matrix_def)
  then show ?thesis
    unfolding compute_transpose_def M by simp
qed

lemma compute_transpose_symmetric:
  assumes "square_matrix n M" "0 < n" "\<forall>i<n. \<forall>j<n. M ! i ! j = M ! j ! i"
  shows "compute_transpose M = Inr M"
proof -
  have len: "length M = n" and row: "\<And>i. i < n \<Longrightarrow> length (M ! i) = n"
    using assms(1) by (simp_all add: square_matrix_def)
  have "map (\<lambda>i. map (\<lambda>j. M ! j ! i) [0..<n]) [0..<n] = M"
  proof (rule nth_equalityI)
    show "length (map (\<lambda>i. map (\<lambda>j. M ! j ! i) [0..<n]) [0..<n]) = length M"
      using len by simp
  next
    fix i assume "i < length (map (\<lambda>i. map (\<lambda>j. M ! j ! i) [0..<n]) [0..<n])"
    then have i: "i < n" by simp
    have "map (\<lambda>j. M ! j ! i) [0..<n] = M ! i"
      by (rule nth_equalityI) (use i row assms(3) in auto)
    then show "map (\<lambda>i. map (\<lambda>j. M ! j ! i) [0..<n]) [0..<n] ! i = M ! i"
      using i by simp
  qed
  then show ?thesis
    using compute_transpose_square[OF assms(1,2)] by simp
qed

lemma compute_transpose_asymmetric:
  assumes "square_matrix n M" "i < n" "j < n" "M ! i ! j \<noteq> M ! j ! i"
  shows "\<exists>T. compute_transpose M = Inr T \<and> M \<noteq> T"
proof -
  let ?T = "map (\<lambda>i. map (\<lambda>j. M ! j ! i) [0..<n]) [0..<n]"
  have "?T ! i ! j = M ! j ! i" using assms(2,3) by simp
  then have "M \<noteq> ?T" using assms(4) by metis
  moreover have "compute_transpose M = Inr ?T"
    using compute_transpose_square[OF assms(1)] assms(2) by simp
  ultimately show ?thesis by blast
qed

lemma compute_transpose_fixed:
  assumes "compute_transpose M = Inr M"
  shows "square_matrix (length M) M \<and> 0 < length M \<and> (\<forall>i<length M. \<forall>j<length M. M ! i ! j = M ! j ! i)"
proof -
  obtain r rs where M: "M = r # rs"
    using assms by (cases M) (auto simp: compute_transpose_def)
  let ?n = "length M" and ?m = "length r"
  have eq: "M = map (\<lambda>i. map (\<lambda>j. M ! j ! i) [0..<?n]) [0..<?m]"
    using assms unfolding compute_transpose_def M by (simp split: if_splits)
  have nm: "?n = ?m"
    using arg_cong[OF eq, of length] by simp
  have rows: "\<And>i. i < ?n \<Longrightarrow> M ! i = map (\<lambda>j. M ! j ! i) [0..<?n]"
  proof -
    fix i assume i: "i < ?n"
    have "M ! i = map (\<lambda>i. map (\<lambda>j. M ! j ! i) [0..<?n]) [0..<?m] ! i"
      using eq by simp
    also have "\<dots> = map (\<lambda>j. M ! j ! i) [0..<?n]"
      using i nm by simp
    finally show "M ! i = map (\<lambda>j. M ! j ! i) [0..<?n]" .
  qed
  have sq: "square_matrix ?n M"
    unfolding square_matrix_def
  proof (intro conjI ballI)
    fix q assume "q \<in> set M"
    then obtain i where i: "i < ?n" "q = M ! i" by (auto simp: in_set_conv_nth)
    then show "length q = ?n" using arg_cong[OF rows[of i], of length] by simp
  qed simp
  have sym: "\<forall>i<?n. \<forall>j<?n. M ! i ! j = M ! j ! i"
  proof (intro allI impI)
    fix i j assume i: "i < ?n" and j: "j < ?n"
    have "M ! i ! j = map (\<lambda>j. M ! j ! i) [0..<?n] ! j"
      using rows[OF i] by simp
    then show "M ! i ! j = M ! j ! i" using j by simp
  qed
  show ?thesis using sq sym M by simp
qed

lemma random_vector_eq:
  "random_vector u n k = (map (\<lambda>i. - 1 + 2 * u (k + i)) [0..<n], k + n)"
proof (induction n arbitrary: k)
  case 0
  then show ?case by simp
next
  case (Suc n)
  show ?case
    by (simp add: Suc.IH random_uniform_def map_upt_Suc del: upt_Suc)
qed

text \<open>
  C4. A square matrix with some \<open>A[i][j] \<noteq> A[j][i]\<close> is classified \<open>False\<close> with the
  state of the random source unchanged (no draw consumed). Whenever the classifier
  returns with a draw consumed, the matrix is identical to its transpose.
\<close>

theorem asymmetric_rejected_without_draw:
  "(square_matrix n A \<and> (\<exists>i<n. \<exists>j<n. A ! i ! j \<noteq> A ! j ! i)
      \<longrightarrow> check_symmetric_positive_definite u A k = Inr (False, k))
   \<and> (\<forall>r k'. check_symmetric_positive_definite u A k = Inr (r, k') \<and> k' \<noteq> k
      \<longrightarrow> compute_transpose A = Inr A)"
proof (intro conjI impI allI)
  assume "square_matrix n A \<and> (\<exists>i<n. \<exists>j<n. A ! i ! j \<noteq> A ! j ! i)"
  then obtain T where "compute_transpose A = Inr T" "A \<noteq> T"
    using compute_transpose_asymmetric by blast
  then show "check_symmetric_positive_definite u A k = Inr (False, k)"
    by (simp add: check_symmetric_positive_definite_def)
next
  fix r k'
  assume "check_symmetric_positive_definite u A k = Inr (r, k') \<and> k' \<noteq> k"
  then show "compute_transpose A = Inr A"
    by (auto simp: check_symmetric_positive_definite_def split: sum.splits if_splits)
qed

theorem asymmetric_rejected_without_draw_witness:
  "square_matrix 2 [[1, 2], [3, 1 :: real]]
   \<and> check_symmetric_positive_definite (\<lambda>m. 3 / 4) [[1, 2], [3, 1]] 5 = Inr (False, 5)"
proof -
  have sq: "square_matrix 2 [[1, 2], [3, 1 :: real]]"
    by (simp add: square_matrix_def)
  have ne: "\<exists>i<2. \<exists>j<2. [[1, 2], [3, 1 :: real]] ! i ! j \<noteq> [[1, 2], [3, 1]] ! j ! i"
    by (rule exI[of _ 0], simp, rule exI[of _ 1], simp)
  show ?thesis
    using asymmetric_rejected_without_draw[of 2 "[[1, 2], [3, 1]]" "\<lambda>m. 3 / 4" 5] sq ne
    by blast
qed


lemma random_vector_range:
  fixes u :: "nat \<Rightarrow> real"
  assumes "\<forall>m. 0 \<le> u m \<and> u m < 1"
  shows "\<forall>x \<in> set (map (\<lambda>i. - 1 + 2 * u (k + i)) [0..<n]). - 1 \<le> x \<and> x \<le> 1"
proof
  fix x assume "x \<in> set (map (\<lambda>i. - 1 + 2 * u (k + i)) [0..<n])"
  then obtain i where x: "x = - 1 + 2 * u (k + i)" by auto
  have "0 \<le> u (k + i)" "u (k + i) < 1" using assms by simp_all
  then show "- 1 \<le> x \<and> x \<le> 1" unfolding x by simp
qed

text \<open>
  C5. For a nonempty square matrix with \<open>A[i][j] = A[j][i]\<close> throughout, the classifier
  consumes exactly \<open>n\<close> draws, the components \<open>v[i] = -1 + 2 * random()\<close> of one vector,
  each in \<open>[-1, 1]\<close> when \<open>random()\<close> is in \<open>[0, 1)\<close>, and returns whether
  \<open>\<Sum>i. v[i] * (\<Sum>j. A[i][j] * v[j])\<close> is strictly positive at that one vector.
\<close>

theorem classifier_single_sample:
  assumes "square_matrix n A" "0 < n" "\<forall>i<n. \<forall>j<n. A ! i ! j = A ! j ! i"
  shows "check_symmetric_positive_definite u A k =
           Inr (0 < (\<Sum>i = 0..<n. map (\<lambda>i. - 1 + 2 * u (k + i)) [0..<n] ! i *
                      (\<Sum>j = 0..<n. A ! i ! j * map (\<lambda>i. - 1 + 2 * u (k + i)) [0..<n] ! j)),
                k + n)
       \<and> ((\<forall>m. 0 \<le> u m \<and> u m < 1) \<longrightarrow>
            (\<forall>x \<in> set (map (\<lambda>i. - 1 + 2 * u (k + i)) [0..<n]). - 1 \<le> x \<and> x \<le> 1))"
proof -
  have len: "length A = n" using assms(1) by (simp add: square_matrix_def)
  have "compute_transpose A = Inr A"
    using compute_transpose_symmetric[OF assms] .
  then have "check_symmetric_positive_definite u A k =
      Inr (0 < quadratic_form A (map (\<lambda>i. - 1 + 2 * u (k + i)) [0..<n]), k + n)"
    by (simp add: check_symmetric_positive_definite_def random_vector_eq len)
  then show ?thesis
    using random_vector_range[of u k n]
    by (simp add: quadratic_form_def len sum_list_upt_sum_real)
qed

text \<open>
  The witness is a misclassification: the indefinite matrix \<open>[[1, 0], [0, -1]]\<close> is
  accepted at the sample \<open>v = [1/2, 0]\<close>, although its quadratic form is negative at
  \<open>[0, 1]\<close>.
\<close>

theorem classifier_single_sample_witness:
  "square_matrix 2 [[1, 0], [0, - 1 :: real]]
   \<and> check_symmetric_positive_definite (\<lambda>m. if m = 0 then 3 / 4 else 1 / 2) [[1, 0], [0, - 1]] 0
       = Inr (True, 2)
   \<and> quadratic_form [[1, 0], [0, - 1]] [0, 1] < 0"
proof -
  have sq: "square_matrix 2 [[1, 0], [0, - 1 :: real]]"
    by (simp add: square_matrix_def)
  have sym: "\<forall>i<2. \<forall>j<2. [[1, 0], [0, - 1 :: real]] ! i ! j = [[1, 0], [0, - 1]] ! j ! i"
    by (simp add: less_Suc_eq numeral_2_eq_2)
  have q: "quadratic_form [[1, 0], [0, - 1]] [0, 1] < 0"
    by (simp add: quadratic_form_def upt_rec)
  show ?thesis
    using classifier_single_sample[OF sq _ sym, of "\<lambda>m. if m = 0 then 3 / 4 else 1 / 2" 0] sq q
    by (simp add: upt_rec numeral_2_eq_2)
qed

text \<open>
  C1. The loop body of \<open>execute_main\<close> returns a solution exactly in two ways. The
  split and the flattening of the right-hand side succeed and the classifier returns.
  If it returned true, the method is Cholesky and the solution is that of the Cholesky
  path: factor \<open>A\<close> into \<open>L\<close>, transpose \<open>L\<close> into \<open>U\<close>, forward substitution with \<open>L\<close>,
  backward substitution with \<open>U\<close>. If it returned false, the method is Doolittle and the
  solution is what the external solver returns on the whole augmented matrix.
\<close>

theorem dispatch_on_classifier:
  "solve_matrix sep Doolittle u matrix k = Inr ((x, method_name), k') \<longleftrightarrow>
     (\<exists>A b0 b spd. sep matrix = Inr (A, b0) \<and> flatten_vector b0 = Inr b
        \<and> check_symmetric_positive_definite u A k = Inr (spd, k')
        \<and> (if spd
            then method_name = ''Cholesky''
               \<and> (\<exists>L U y. cholesky_factor A = Inr L \<and> compute_transpose L = Inr U
                     \<and> forward_substitution L (map of_real b) = Inr y
                     \<and> backward_substitution U y = Inr x)
            else method_name = ''Doolittle'' \<and> Doolittle matrix = Inr x))"
  unfolding solve_matrix_def decompose_cholesky_def
  by (auto split: sum.splits prod.splits)


lemma separateAugmented_1: "separateAugmented [[a, b]] = Inr ([[a]], Flat [b])"
  by (simp add: separateAugmented_def)

lemma cholesky_factor_1: "cholesky_factor [[a]] = Inr [[csqrt (of_real a)]]"
  by (simp add: cholesky_factor_def cholesky_entry_def)

lemma decompose_cholesky_1:
  assumes "a \<noteq> 0"
  shows "decompose_cholesky separateAugmented [[a, b]] =
           Inr ([of_real (b / a)], [[csqrt (of_real a)]], [[csqrt (of_real a)]])"
proof -
  have "of_real b / csqrt (of_real a) / csqrt (of_real a) = of_real b / (csqrt (of_real a))\<^sup>2"
    by (simp add: power2_eq_square)
  also have "\<dots> = of_real (b / a)"
    by (simp del: csqrt_of_real_nonneg csqrt_of_real_nonpos)
  finally have x: "of_real b / csqrt (of_real a) / csqrt (of_real a) = of_real (b / a)" .
  show ?thesis
    using assms x
    by (simp add: decompose_cholesky_def separateAugmented_1 cholesky_factor_1
        compute_transpose_def forward_substitution_def backward_substitution_def
        del: csqrt_of_real_nonneg csqrt_of_real_nonpos of_real_divide)
qed

lemma check_1:
  "check_symmetric_positive_definite u [[a]] k = Inr (0 < a * (- 1 + 2 * u k)\<^sup>2, Suc k)"
  by (simp add: check_symmetric_positive_definite_def compute_transpose_def
      random_uniform_def quadratic_form_def power2_eq_square mult.assoc mult.left_commute)


lemma forward_loop_length:
  "forward_loop L b y is = Inr y' \<Longrightarrow> length y' = length y"
  by (induction L b y "is" rule: forward_loop.induct) (auto split: if_splits)

lemma backward_loop_length:
  "backward_loop U b n x is = Inr x' \<Longrightarrow> length x' = length x"
  by (induction U b n x "is" rule: backward_loop.induct) (auto split: if_splits)

lemma forward_substitution_length:
  "forward_substitution L b = Inr y \<Longrightarrow> length y = length b"
  using forward_loop_length[of L b "replicate (length b) 0" "[0..<length b]" y]
  by (simp add: forward_substitution_def Let_def)

lemma backward_substitution_length:
  "backward_substitution U b = Inr x \<Longrightarrow> length x = length b"
  using backward_loop_length[of U b "length b" "replicate (length b) 0" "rev [0..<length b]" x]
  by (simp add: backward_substitution_def Let_def)

lemma length_concat_singletons:
  "\<forall>r \<in> set rows. length r = Suc 0 \<Longrightarrow> length (concat rows) = length rows"
  by (induction rows) auto

text \<open>
  C10. When the split hands over the right-hand side as a nested column,
  \<open>decompose_cholesky\<close> solves with the concatenation of its rows: the substitutions
  receive a flat vector, and the solution returned is a flat list with one number for
  each number of the column (one per row when every row of the column has one entry).
\<close>

theorem nested_rhs_flattened:
  assumes "sep matrix_aug = Inr (A, Nested rows)" "rows \<noteq> []"
  shows "(decompose_cholesky sep matrix_aug = Inr (x, L, U) \<longleftrightarrow>
            cholesky_factor A = Inr L \<and> compute_transpose L = Inr U
            \<and> (\<exists>y. forward_substitution L (map of_real (concat rows)) = Inr y
                  \<and> backward_substitution U y = Inr x))
       \<and> (decompose_cholesky sep matrix_aug = Inr (x, L, U) \<longrightarrow>
            length x = length (concat rows)
            \<and> ((\<forall>r \<in> set rows. length r = 1) \<longrightarrow> length x = length rows))"
proof -
  obtain r rs where rows: "rows = r # rs" using assms(2) by (cases rows) auto
  have char: "decompose_cholesky sep matrix_aug = Inr (x, L, U) \<longleftrightarrow>
            cholesky_factor A = Inr L \<and> compute_transpose L = Inr U
            \<and> (\<exists>y. forward_substitution L (map of_real (concat rows)) = Inr y
                  \<and> backward_substitution U y = Inr x)"
    unfolding decompose_cholesky_def assms(1) rows
    by (auto split: sum.splits)
  have len: "length x = length (concat rows)"
    if dec: "decompose_cholesky sep matrix_aug = Inr (x, L, U)"
  proof -
    obtain y where "forward_substitution L (map of_real (concat rows)) = Inr y"
      "backward_substitution U y = Inr x"
      using dec char by blast
    then show ?thesis
      using forward_substitution_length backward_substitution_length by fastforce
  qed
  show ?thesis
    using char len length_concat_singletons[of rows] by simp
qed

theorem nested_rhs_flattened_witness:
  "(\<lambda>m. Inr ([[4]], Nested [[8]])) [[4, 8 :: real]] = Inr ([[4 :: real]], Nested [[8]])
   \<and> [[8 :: real]] \<noteq> []
   \<and> decompose_cholesky (\<lambda>m. Inr ([[4]], Nested [[8]])) [[4, 8]] = Inr ([2], [[2]], [[2]])
   \<and> length [2 :: complex] = length [[8 :: real]]"
proof -
  have c: "csqrt 4 = 2"
    using csqrt_of_real_nonneg[of 4] by simp
  have d: "decompose_cholesky (\<lambda>m. Inr ([[4]], Nested [[8]])) [[4, 8]] = Inr ([2], [[2]], [[2]])"
    using c
    by (simp add: decompose_cholesky_def cholesky_factor_1
        compute_transpose_def forward_substitution_def backward_substitution_def
        del: csqrt_of_real_nonneg csqrt_of_real_nonpos)
  show ?thesis
    using nested_rhs_flattened[of "\<lambda>m. Inr ([[4]], Nested [[8]])" "[[4, 8]]" "[[4]]" "[[8]]"
        "[2]" "[[2]]" "[[2]]"] d
    by simp
qed

text \<open>
  C7, as the code has it. For a \<open>1 \<times> 1\<close> system \<open>[[a, b]]\<close> with \<open>a > 0\<close> the classifier
  accepts unless the sampled component is zero (\<open>random() = 1/2\<close>). The Cholesky path
  has \<open>L = U = [[sqrt a]]\<close>; forward substitution gives \<open>b / sqrt a\<close> and backward
  substitution divides by \<open>sqrt a\<close> once more, so the solution is \<open>[b / a]\<close>.
\<close>

theorem scalar_system:
  assumes "0 < a"
  shows "solve_matrix separateAugmented Doolittle u [[a, b]] k =
           (if u k = 1 / 2
            then (case Doolittle [[a, b]] of
                    Inl e \<Rightarrow> Inl e
                  | Inr x \<Rightarrow> Inr ((x, ''Doolittle''), Suc k))
            else Inr (([of_real (b / a)], ''Cholesky''), Suc k))
       \<and> decompose_cholesky separateAugmented [[a, b]] =
           Inr ([of_real (b / a)], [[of_real (sqrt a)]], [[of_real (sqrt a)]])"
proof -
  have pos: "0 < a * (- 1 + 2 * u k)\<^sup>2 \<longleftrightarrow> u k \<noteq> 1 / 2"
    using assms by (auto simp: zero_less_mult_iff)
  have d: "decompose_cholesky separateAugmented [[a, b]] =
           Inr ([of_real (b / a)], [[of_real (sqrt a)]], [[of_real (sqrt a)]])"
    using decompose_cholesky_1[of a b] assms by simp
  show ?thesis
    using d pos
    by (simp add: solve_matrix_def separateAugmented_1 check_1 del: of_real_divide)
qed

theorem scalar_system_witness:
  "(0 :: real) < 4
   \<and> solve_matrix separateAugmented (\<lambda>m. Inr []) (\<lambda>m. 3 / 4) [[4, 8]] 0
       = Inr (([2], ''Cholesky''), 1)"
  using scalar_system[of 4 "\<lambda>m. Inr []" "\<lambda>m. 3 / 4" 8 0]
  by simp

text \<open>
  The statement of C7 fails at \<open>[[4, 8]]\<close>: the solution is \<open>[2]\<close>, and \<open>8 / sqrt 4\<close> is
  \<open>4\<close>.
\<close>

theorem scalar_system_counterexample:
  "decompose_cholesky separateAugmented [[4, 8]] = Inr ([2], [[2]], [[2]])
   \<and> (2 :: complex) \<noteq> of_real (8 / sqrt 4)"
proof -
  have c: "csqrt 4 = 2"
    using csqrt_of_real_nonneg[of 4] by simp
  have "decompose_cholesky separateAugmented [[4, 8]] = Inr ([2], [[2]], [[2]])"
    using decompose_cholesky_1[of 4 8] c by simp
  then show ?thesis by simp
qed

text \<open>A run of the loop body through the Cholesky path.\<close>

theorem dispatch_on_classifier_witness:
  "\<exists>A b0 b spd. separateAugmented [[4, 8]] = Inr (A, b0) \<and> flatten_vector b0 = Inr b
        \<and> check_symmetric_positive_definite (\<lambda>m. 3 / 4) A 0 = Inr (spd, 1)
        \<and> (if spd
            then ''Cholesky'' = ''Cholesky''
               \<and> (\<exists>L U y. cholesky_factor A = Inr L \<and> compute_transpose L = Inr U
                     \<and> forward_substitution L (map of_real b) = Inr y
                     \<and> backward_substitution U y = Inr [2])
            else ''Cholesky'' = ''Doolittle'' \<and> (Inr [] :: error + complex list) = Inr [2])"
proof -
  have pos: "(0 :: real) < 4" by simp
  have d: "decompose_cholesky separateAugmented [[4, 8]] = Inr ([2], [[of_real (sqrt 4)]], [[of_real (sqrt 4)]])"
    using decompose_cholesky_1[of 4 8] by simp
  have "solve_matrix separateAugmented (\<lambda>m. Inr []) (\<lambda>m. 3 / 4) [[4, 8]] 0
       = Inr (([2], ''Cholesky''), 1)"
    using d by (simp add: solve_matrix_def separateAugmented_1 check_1)
  then show ?thesis
    using dispatch_on_classifier[of separateAugmented "\<lambda>m. Inr []" "\<lambda>m. 3 / 4" "[[4, 8]]" 0
        "[2]" "''Cholesky''" 1]
    by blast
qed


lemma update_entry:
  assumes "square_matrix n L" "i < n" "j < n" "a < n" "b < n"
  shows "L[i := (L ! i)[j := v]] ! a ! b = (if a = i \<and> b = j then v else L ! a ! b)"
proof -
  have "length L = n" "length (L ! i) = n"
    using assms by (simp_all add: square_matrix_def)
  then show ?thesis using assms by (simp add: nth_list_update)
qed

lemma update_square:
  assumes "square_matrix n L" "i < n"
  shows "square_matrix n (L[i := (L ! i)[j := v]])"
proof -
  have len: "length L = n" and row: "\<And>a. a < n \<Longrightarrow> length (L ! a) = n"
    using assms by (simp_all add: square_matrix_def)
  have "length r = n" if mem: "r \<in> set (L[i := (L ! i)[j := v]])" for r
  proof -
    obtain a where a: "a < n" "r = L[i := (L ! i)[j := v]] ! a"
      using mem len by (auto simp: in_set_conv_nth)
    show ?thesis
      using a row len assms(2) by (cases "a = i") simp_all
  qed
  then show ?thesis using len by (simp add: square_matrix_def)
qed

lemma chol_eqn_cong:
  assumes "\<forall>k\<le>b. L' ! a ! k = L ! a ! k" "\<forall>k\<le>b. L' ! b ! k = L ! b ! k" "b \<le> a"
  shows "chol_eqn A L' a b = chol_eqn A L a b"
proof (cases "a = b")
  case True
  have "(\<Sum>k\<leftarrow>[0..<a]. (L' ! a ! k)\<^sup>2) = (\<Sum>k\<leftarrow>[0..<a]. (L ! a ! k)\<^sup>2)"
    by (rule sum_list_upt_cong) (use assms True in simp)
  then show ?thesis using True assms by (simp add: chol_eqn_def)
next
  case False
  have "(\<Sum>k\<leftarrow>[0..<b]. L' ! a ! k * L' ! b ! k) = (\<Sum>k\<leftarrow>[0..<b]. L ! a ! k * L ! b ! k)"
    by (rule sum_list_upt_cong) (use assms in simp)
  then show ?thesis using False assms by (simp add: chol_eqn_def)
qed

lemma cholesky_entry_eqn:
  assumes "cholesky_entry A L i j = Inr v" "L' ! i ! j = v" "j \<le> i"
    and "\<forall>k<j. L' ! i ! k = L ! i ! k" "j < i \<longrightarrow> (\<forall>k\<le>j. L' ! j ! k = L ! j ! k)"
  shows "chol_eqn A L' i j"
proof (cases "i = j")
  case True
  have "(\<Sum>k\<leftarrow>[0..<i]. (L' ! i ! k)\<^sup>2) = (\<Sum>k\<leftarrow>[0..<i]. (L ! i ! k)\<^sup>2)"
    by (rule sum_list_upt_cong) (use assms True in simp)
  then show ?thesis
    using True assms(1,2) by (auto simp: chol_eqn_def cholesky_entry_def split: if_splits)
next
  case False
  then have lt: "j < i" using assms(3) by simp
  have "(\<Sum>k\<leftarrow>[0..<j]. L' ! i ! k * L' ! j ! k) = (\<Sum>k\<leftarrow>[0..<j]. L ! i ! k * L ! j ! k)"
    by (rule sum_list_upt_cong) (use assms lt in simp)
  moreover have "L' ! j ! j = L ! j ! j" using assms(5) lt by simp
  ultimately show ?thesis
    using False assms(1,2) by (auto simp: chol_eqn_def cholesky_entry_def split: if_splits)
qed

lemma chol_inv_step:
  assumes inv: "chol_inv n A L i j" and i: "i < n" and j: "j \<le> i"
    and ent: "cholesky_entry A L i j = Inr v"
  shows "chol_inv n A (L[i := (L ! i)[j := v]]) i (Suc j)"
proof -
  let ?L = "L[i := (L ! i)[j := v]]"
  have sq: "square_matrix n L" using inv by (simp add: chol_inv_def)
  have jn: "j < n" using i j by simp
  have upd: "\<And>a b. a < n \<Longrightarrow> b < n \<Longrightarrow> ?L ! a ! b = (if a = i \<and> b = j then v else L ! a ! b)"
    using update_entry[OF sq i jn] by simp
  have sq': "square_matrix n ?L" using update_square[OF sq i] .
  have "if processed i (Suc j) a b then chol_eqn A ?L a b else ?L ! a ! b = 0"
    if a: "a < n" and b: "b < n" for a b
  proof (cases "a = i \<and> b = j")
    case True
    have "chol_eqn A ?L i j"
    proof (rule cholesky_entry_eqn[OF ent _ j])
      show "?L ! i ! j = v" using upd[OF i jn] by simp
      show "\<forall>k<j. ?L ! i ! k = L ! i ! k" using upd[OF i] jn by simp
      show "j < i \<longrightarrow> (\<forall>k\<le>j. ?L ! j ! k = L ! j ! k)" using upd[OF jn] jn by simp
    qed
    then show ?thesis using True by (simp add: processed_def)
  next
    case False
    show ?thesis
    proof (cases "processed i j a b")
      case True
      then have ba: "b \<le> a" using j by (auto simp: processed_def)
      have old: "chol_eqn A L a b"
        using inv a b True by (simp add: chol_inv_def)
      have r1: "\<forall>k\<le>b. ?L ! a ! k = L ! a ! k"
        using upd[OF a] b True by (auto simp: processed_def)
      have r2: "\<forall>k\<le>b. ?L ! b ! k = L ! b ! k"
        using upd[OF b] b True j by (auto simp: processed_def)
      have "chol_eqn A ?L a b"
        using chol_eqn_cong[OF r1 r2 ba] old by simp
      moreover have "processed i (Suc j) a b"
        using True by (auto simp: processed_def)
      ultimately show ?thesis by simp
    next
      case np: False
      then have "L ! a ! b = 0"
        using inv a b by (simp add: chol_inv_def)
      moreover have "\<not> processed i (Suc j) a b"
        using np False by (auto simp: processed_def)
      ultimately show ?thesis using upd[OF a b] False by simp
    qed
  qed
  then show ?thesis using sq' by (simp add: chol_inv_def)
qed

lemma processed_next_row: "processed i (Suc i) a b = processed (Suc i) 0 a b"
  by (auto simp: processed_def)

lemma chol_inv_next_row: "chol_inv n A L i (Suc i) = chol_inv n A L (Suc i) 0"
  by (simp add: chol_inv_def processed_next_row)

lemma cholesky_row_inv:
  assumes "chol_inv n A L i j" "i < n" "j \<le> Suc i"
    and "cholesky_row A L i [j..<Suc i] = Inr L'"
  shows "chol_inv n A L' (Suc i) 0"
  using assms
proof (induction "Suc i - j" arbitrary: j L)
  case 0
  then have "j = Suc i" by simp
  then show ?case using "0.prems" by (simp add: chol_inv_next_row)
next
  case (Suc d)
  then have le: "j \<le> i" by simp
  then have upt: "[j..<Suc i] = j # [Suc j..<Suc i]" by (simp add: upt_conv_Cons)
  obtain v where v: "cholesky_entry A L i j = Inr v"
    and rest: "cholesky_row A (L[i := (L ! i)[j := v]]) i [Suc j..<Suc i] = Inr L'"
    using Suc.prems(4) unfolding upt by (auto split: sum.splits)
  have "chol_inv n A (L[i := (L ! i)[j := v]]) i (Suc j)"
    using chol_inv_step[OF Suc.prems(1,2) le v] .
  then show ?case
    using Suc.hyps(1)[of "Suc j" "L[i := (L ! i)[j := v]]"] Suc.hyps(2) Suc.prems(2) le rest
    by simp
qed

lemma cholesky_rows_inv:
  assumes "chol_inv n A L i 0" "i \<le> n"
    and "cholesky_rows A L [i..<n] = Inr L'"
  shows "chol_inv n A L' n 0"
  using assms
proof (induction "n - i" arbitrary: i L)
  case 0
  then show ?case by simp
next
  case (Suc d)
  then have lt: "i < n" by simp
  then have upt: "[i..<n] = i # [Suc i..<n]" by (simp add: upt_conv_Cons)
  obtain L1 where row: "cholesky_row A L i [0..<Suc i] = Inr L1"
    and rest: "cholesky_rows A L1 [Suc i..<n] = Inr L'"
    using Suc.prems(3) unfolding upt by (auto split: sum.splits)
  have "chol_inv n A L1 (Suc i) 0"
    using cholesky_row_inv[OF Suc.prems(1) lt _ row] by simp
  then show ?case
    using Suc.hyps(1)[of "Suc i" L1] Suc.hyps(2) lt rest by simp
qed

lemma chol_inv_init: "chol_inv n A (replicate n (replicate n 0)) 0 0"
  by (simp add: chol_inv_def square_matrix_def processed_def)

lemma cholesky_factor_inv:
  assumes "cholesky_factor A = Inr L"
  shows "chol_inv (length A) A L (length A) 0"
  using cholesky_rows_inv[OF chol_inv_init, of "length A" A L] assms
  by (simp add: cholesky_factor_def Let_def)


lemma chol_inv_upper_zero:
  assumes "chol_inv n A L n 0" "a < n" "b < n" "a < b"
  shows "L ! a ! b = 0"
  using assms by (auto simp: chol_inv_def processed_def)

lemma chol_inv_lower_eqn:
  assumes "chol_inv n A L n 0" "a < n" "b \<le> a"
  shows "chol_eqn A L a b"
proof -
  have "processed n 0 a b" using assms by (simp add: processed_def)
  moreover have "b < n" using assms by simp
  ultimately show ?thesis using assms(1,2) by (auto simp: chol_inv_def)
qed

lemma compute_transpose_entries:
  assumes "square_matrix n M" "compute_transpose M = Inr T"
  shows "square_matrix n T \<and> (\<forall>i<n. \<forall>j<n. T ! i ! j = M ! j ! i)"
proof (cases "n = 0")
  case True
  then show ?thesis using assms by (simp add: square_matrix_def compute_transpose_def)
next
  case False
  then have "T = map (\<lambda>i. map (\<lambda>j. M ! j ! i) [0..<n]) [0..<n]"
    using compute_transpose_square[OF assms(1)] assms(2) by simp
  then show ?thesis by (auto simp: square_matrix_def)
qed

lemma decompose_cholesky_Inr:
  "decompose_cholesky sep matrix_aug = Inr (x, L, U) \<longleftrightarrow>
     (\<exists>A v b y. sep matrix_aug = Inr (A, v) \<and> flatten_vector v = Inr b
        \<and> cholesky_factor A = Inr L \<and> compute_transpose L = Inr U
        \<and> forward_substitution L (map of_real b) = Inr y
        \<and> backward_substitution U y = Inr x)"
  unfolding decompose_cholesky_def
  by (auto split: sum.splits prod.splits)

text \<open>
  C9. A factor \<open>L\<close> returned by the factorisation loops is square with \<open>L[i][j] = 0\<close> for
  \<open>j > i\<close>. When \<open>decompose_cholesky\<close> returns \<open>(x, L, U)\<close>, \<open>L\<close> is that factor, \<open>U\<close> is
  the transpose of \<open>L\<close> (\<open>U[i][j] = L[j][i]\<close>), and \<open>x\<close> is the result of the backward
  substitution with \<open>U\<close>.
\<close>

theorem factor_lower_triangular:
  "(cholesky_factor A = Inr L \<longrightarrow>
      square_matrix (length A) L \<and> (\<forall>i<length A. \<forall>j<length A. i < j \<longrightarrow> L ! i ! j = 0))
   \<and> (decompose_cholesky sep matrix_aug = Inr (x, L', U) \<longrightarrow>
      (\<exists>A' v. sep matrix_aug = Inr (A', v) \<and> cholesky_factor A' = Inr L')
      \<and> compute_transpose L' = Inr U
      \<and> square_matrix (length L') U
      \<and> (\<forall>i<length L'. \<forall>j<length L'. U ! i ! j = L' ! j ! i)
      \<and> (\<forall>i<length L'. \<forall>j<length L'. j < i \<longrightarrow> U ! i ! j = 0)
      \<and> (\<exists>y. backward_substitution U y = Inr x))"
proof (rule conjI; rule impI)
  assume f: "cholesky_factor A = Inr L"
  have inv: "chol_inv (length A) A L (length A) 0"
    using cholesky_factor_inv[OF f] .
  show "square_matrix (length A) L \<and> (\<forall>i<length A. \<forall>j<length A. i < j \<longrightarrow> L ! i ! j = 0)"
    using inv chol_inv_upper_zero[OF inv] by (simp add: chol_inv_def)
next
  assume d: "decompose_cholesky sep matrix_aug = Inr (x, L', U)"
  then obtain A' v b y where s: "sep matrix_aug = Inr (A', v)"
    and f: "cholesky_factor A' = Inr L'" and t: "compute_transpose L' = Inr U"
    and bs: "backward_substitution U y = Inr x"
    using decompose_cholesky_Inr[of sep matrix_aug x L' U] by blast
  have inv: "chol_inv (length A') A' L' (length A') 0"
    using cholesky_factor_inv[OF f] .
  have sq: "square_matrix (length A') L'" using inv by (simp add: chol_inv_def)
  then have len: "length L' = length A'" by (simp add: square_matrix_def)
  have te: "square_matrix (length L') U \<and> (\<forall>i<length L'. \<forall>j<length L'. U ! i ! j = L' ! j ! i)"
    using compute_transpose_entries[OF sq t] len by simp
  have uz: "\<forall>i<length L'. \<forall>j<length L'. j < i \<longrightarrow> U ! i ! j = 0"
    using te chol_inv_upper_zero[OF inv] len by simp
  show "(\<exists>A' v. sep matrix_aug = Inr (A', v) \<and> cholesky_factor A' = Inr L')
      \<and> compute_transpose L' = Inr U
      \<and> square_matrix (length L') U
      \<and> (\<forall>i<length L'. \<forall>j<length L'. U ! i ! j = L' ! j ! i)
      \<and> (\<forall>i<length L'. \<forall>j<length L'. j < i \<longrightarrow> U ! i ! j = 0)
      \<and> (\<exists>y. backward_substitution U y = Inr x)"
    using s f t te uz bs by blast
qed

lemma csqrt_4: "csqrt 4 = 2"
  using csqrt_square[of 2] by simp

lemma csqrt_9: "csqrt 9 = 3"
  using csqrt_square[of 3] by simp

lemma csqrt_16: "csqrt 16 = 4"
  using csqrt_square[of 4] by simp

lemma cholesky_factor_2x2: "cholesky_factor [[4, 2], [2, 10]] = Inr [[2, 0], [1, 3]]"
  by (simp add: cholesky_factor_def cholesky_entry_def upt_rec csqrt_4 csqrt_9 numeral_2_eq_2
      del: csqrt_of_real_nonneg csqrt_of_real_nonpos)

lemma decompose_cholesky_2x2:
  "decompose_cholesky separateAugmented [[4, 2, 4], [2, 10, 11]]
     = Inr ([1 / 2, 1], [[2, 0], [1, 3]], [[2, 1], [0, 3]])"
  by (simp add: decompose_cholesky_def separateAugmented_def cholesky_factor_2x2
      compute_transpose_def forward_substitution_def backward_substitution_def upt_rec
      numeral_2_eq_2)

theorem factor_lower_triangular_witness:
  "cholesky_factor [[4, 2], [2, 10]] = Inr [[2, 0], [1, 3]]
   \<and> decompose_cholesky separateAugmented [[4, 2, 4], [2, 10, 11]]
       = Inr ([1 / 2, 1], [[2, 0], [1, 3]], [[2, 1], [0, 3]])
   \<and> compute_transpose [[2, 0], [1, 3 :: complex]] = Inr [[2, 1], [0, 3]]
   \<and> (\<exists>y. backward_substitution [[2, 1], [0, 3]] y = Inr [1 / 2, 1])"
  using factor_lower_triangular[of "[[4, 2], [2, 10]]" "[[2, 0], [1, 3]]" separateAugmented
      "[[4, 2, 4], [2, 10, 11]]" "[1 / 2, 1]" "[[2, 0], [1, 3]]" "[[2, 1], [0, 3]]"]
    cholesky_factor_2x2 decompose_cholesky_2x2
  by simp










lemma chol_eqn_gram:
  assumes "chol_eqn A L a b" "b \<le> a"
  shows "(\<Sum>k = 0..<Suc b. L ! a ! k * L ! b ! k) = of_real (A ! a ! b)"
proof (cases "a = b")
  case True
  have "L ! a ! a * L ! a ! a = (csqrt (of_real (A ! a ! a) - (\<Sum>k = 0..<a. (L ! a ! k)\<^sup>2)))\<^sup>2"
    using assms(1) True by (simp add: chol_eqn_def sum_list_upt_sum power2_eq_square)
  also have "\<dots> = of_real (A ! a ! a) - (\<Sum>k = 0..<a. (L ! a ! k)\<^sup>2)"
    by (rule power2_csqrt)
  finally show ?thesis
    using True by (simp add: power2_eq_square)
next
  case False
  then have nz: "L ! b ! b \<noteq> 0"
    and eq: "L ! a ! b = (of_real (A ! a ! b) - (\<Sum>k = 0..<b. L ! a ! k * L ! b ! k)) / L ! b ! b"
    using assms(1) by (simp_all add: chol_eqn_def sum_list_upt_sum)
  have "L ! a ! b * L ! b ! b = of_real (A ! a ! b) - (\<Sum>k = 0..<b. L ! a ! k * L ! b ! k)"
    using nz eq by (simp add: field_simps)
  then show ?thesis by simp
qed

lemma gram_extend:
  fixes L :: "complex list list"
  assumes "\<forall>k. Suc b \<le> k \<and> k < m \<longrightarrow> L ! b ! k = 0" "Suc b \<le> m"
  shows "(\<Sum>k = 0..<m. L ! a ! k * L ! b ! k) = (\<Sum>k = 0..<Suc b. L ! a ! k * L ! b ! k)"
proof (rule sum.mono_neutral_right)
  show "finite {0..<m}" by simp
  show "{0..<Suc b} \<subseteq> {0..<m}" using assms(2) by auto
  show "\<forall>k \<in> {0..<m} - {0..<Suc b}. L ! a ! k * L ! b ! k = 0"
    using assms(1) by auto
qed

lemma chol_inv_gram:
  assumes inv: "chol_inv n A L i j" and "a < n" "b \<le> a" "processed i j a b" "b < m" "m \<le> n"
    and ji: "j \<le> Suc i"
  shows "(\<Sum>k = 0..<m. L ! a ! k * L ! b ! k) = of_real (A ! a ! b)"
proof -
  have bn: "b < n" using assms by simp
  have eqn: "chol_eqn A L a b"
    using inv assms(2,4) bn by (auto simp: chol_inv_def)
  have "\<not> processed i j b k" if "Suc b \<le> k" for k
    using that assms(3,4) ji by (auto simp: processed_def)
  then have zero: "\<forall>k. Suc b \<le> k \<and> k < m \<longrightarrow> L ! b ! k = 0"
    using inv bn assms(6) by (auto simp: chol_inv_def)
  show ?thesis
    using gram_extend[OF zero, of a] chol_eqn_gram[OF eqn assms(3)] assms(5) by simp
qed

lemma factor_product:
  assumes f: "cholesky_factor A = Inr L" and len: "length A = n"
    and sym: "\<forall>i<n. \<forall>j<n. A ! i ! j = A ! j ! i" and a: "a < n" and b: "b < n"
  shows "(\<Sum>k = 0..<n. L ! a ! k * L ! b ! k) = of_real (A ! a ! b)"
proof -
  have inv: "chol_inv n A L n 0"
    using cholesky_factor_inv[OF f] len by simp
  show ?thesis
  proof (cases "b \<le> a")
    case True
    then show ?thesis
      using chol_inv_gram[OF inv a True _ b] a by (simp add: processed_def)
  next
    case False
    then have ab: "a \<le> b" by simp
    have "(\<Sum>k = 0..<n. L ! b ! k * L ! a ! k) = of_real (A ! b ! a)"
      using chol_inv_gram[OF inv b ab _ a] b ab by (simp add: processed_def)
    then show ?thesis using sym a b by (simp add: mult.commute)
  qed
qed


lemma upper_solve:
  fixes U :: "nat \<Rightarrow> nat \<Rightarrow> real"
  assumes "\<forall>k<m. U k k \<noteq> 0" "\<forall>k<m. \<forall>a<k. U k a = 0"
  shows "\<exists>w. \<forall>k<m. (\<Sum>a<m. U k a * w a) = c k"
  using assms
proof (induction m arbitrary: c)
  case 0
  then show ?case by simp
next
  case (Suc m)
  define x where "x = c m / U m m"
  have nz: "U m m \<noteq> 0" using Suc.prems(1) by simp
  obtain w where w: "\<forall>k<m. (\<Sum>a<m. U k a * w a) = c k - U k m * x"
    using Suc.IH[of "\<lambda>k. c k - U k m * x"] Suc.prems by auto
  let ?w = "w(m := x)"
  have same: "(\<Sum>a<m. U k a * ?w a) = (\<Sum>a<m. U k a * w a)" for k
    by (rule sum.cong) auto
  have "(\<Sum>a<Suc m. U k a * ?w a) = c k" if k: "k < Suc m" for k
  proof (cases "k < m")
    case True
    then show ?thesis using w same[of k] by simp
  next
    case False
    then have km: "k = m" using k by simp
    have "(\<Sum>a<m. U m a * ?w a) = 0"
      by (rule sum.neutral) (use Suc.prems(2) in auto)
    then show ?thesis using km nz by (simp add: x_def)
  qed
  then show ?case by blast
qed

lemma gram_quadratic:
  fixes M :: "nat \<Rightarrow> nat \<Rightarrow> real"
  shows "(\<Sum>a\<in>S. v a * (\<Sum>b\<in>S. (\<Sum>k\<in>K. M a k * M b k) * v b))
       = (\<Sum>k\<in>K. (\<Sum>a\<in>S. M a k * v a)\<^sup>2)"
proof -
  have "(\<Sum>a\<in>S. v a * (\<Sum>b\<in>S. (\<Sum>k\<in>K. M a k * M b k) * v b))
      = (\<Sum>a\<in>S. \<Sum>b\<in>S. \<Sum>k\<in>K. (M a k * v a) * (M b k * v b))"
    by (simp add: sum_distrib_left sum_distrib_right mult_ac)
  also have "\<dots> = (\<Sum>a\<in>S. \<Sum>k\<in>K. \<Sum>b\<in>S. (M a k * v a) * (M b k * v b))"
    by (rule sum.cong[OF refl], rule sum.swap)
  also have "\<dots> = (\<Sum>k\<in>K. \<Sum>a\<in>S. \<Sum>b\<in>S. (M a k * v a) * (M b k * v b))"
    by (rule sum.swap)
  also have "\<dots> = (\<Sum>k\<in>K. (\<Sum>a\<in>S. M a k * v a)\<^sup>2)"
    by (simp add: power2_eq_square sum_product)
  finally show ?thesis .
qed

lemma radicand_pos:
  fixes M Af :: "nat \<Rightarrow> nat \<Rightarrow> real"
  assumes i: "i < n"
    and gram: "\<forall>a\<le>i. \<forall>b\<le>i. \<not> (a = i \<and> b = i) \<longrightarrow> (\<Sum>k<i. M a k * M b k) = Af a b"
    and tri: "\<forall>k<i. \<forall>a<k. M a k = 0"
    and diag: "\<forall>a<i. M a a \<noteq> 0"
    and pd: "\<And>v. \<exists>a<n. v a \<noteq> 0 \<Longrightarrow> 0 < (\<Sum>a<n. v a * (\<Sum>b<n. Af a b * v b))"
  shows "0 < Af i i - (\<Sum>k<i. (M i k)\<^sup>2)"
proof -
  define r where "r = Af i i - (\<Sum>k<i. (M i k)\<^sup>2)"
  obtain w where w: "\<forall>k<i. (\<Sum>a<i. M a k * w a) = - M i k"
    using upper_solve[of i "\<lambda>k a. M a k" "\<lambda>k. - M i k"] diag tri by auto
  define v where "v a = (if a < i then w a else if a = i then 1 else 0)" for a
  have col: "(\<Sum>a<Suc i. M a k * v a) = 0" if "k < i" for k
  proof -
    have "(\<Sum>a<i. M a k * v a) = (\<Sum>a<i. M a k * w a)"
      by (rule sum.cong) (auto simp: v_def)
    then show ?thesis using w that by (simp add: v_def)
  qed
  have Aeq: "Af a b = (\<Sum>k<i. M a k * M b k) + (if a = i \<and> b = i then r else 0)"
    if "a \<in> {..<Suc i}" "b \<in> {..<Suc i}" for a b
  proof (cases "a = i \<and> b = i")
    case True
    then show ?thesis by (simp add: r_def power2_eq_square)
  next
    case False
    then show ?thesis using gram that by auto
  qed
  have inner0: "(\<Sum>b<n. Af a b * v b) = (\<Sum>b<Suc i. Af a b * v b)" for a
    by (rule sum.mono_neutral_right) (use i in \<open>auto simp: v_def\<close>)
  have "(\<Sum>a<n. v a * (\<Sum>b<n. Af a b * v b)) = (\<Sum>a<n. v a * (\<Sum>b<Suc i. Af a b * v b))"
    by (simp add: inner0)
  also have "\<dots> = (\<Sum>a<Suc i. v a * (\<Sum>b<Suc i. Af a b * v b))"
    by (rule sum.mono_neutral_right) (use i in \<open>auto simp: v_def\<close>)
  also have "\<dots> = (\<Sum>a<Suc i. v a * (\<Sum>b<Suc i.
        ((\<Sum>k<i. M a k * M b k) + (if a = i \<and> b = i then r else 0)) * v b))"
    by (intro sum.cong refl arg_cong2[where f = "(*)"]) (simp add: Aeq)
  also have "\<dots> = (\<Sum>a<Suc i. v a * (\<Sum>b<Suc i. (\<Sum>k<i. M a k * M b k) * v b))
                 + (\<Sum>a<Suc i. v a * (\<Sum>b<Suc i. (if a = i \<and> b = i then r else 0) * v b))"
    by (simp add: distrib_right distrib_left sum.distrib)
  also have "(\<Sum>a<Suc i. v a * (\<Sum>b<Suc i. (\<Sum>k<i. M a k * M b k) * v b))
           = (\<Sum>k<i. (\<Sum>a<Suc i. M a k * v a)\<^sup>2)"
    by (rule gram_quadratic)
  also have "\<dots> = 0"
    by (rule sum.neutral) (use col in auto)
  also have "(\<Sum>a<Suc i. v a * (\<Sum>b<Suc i. (if a = i \<and> b = i then r else 0) * v b)) = r"
    by (simp add: v_def)
  finally have "(\<Sum>a<n. v a * (\<Sum>b<n. Af a b * v b)) = r" by simp
  moreover have "\<exists>a<n. v a \<noteq> 0"
    using i by (intro exI[of _ i]) (simp add: v_def)
  ultimately show ?thesis using pd[of v] by (simp add: r_def)
qed


lemma quadratic_form_fun:
  assumes "length A = n"
  shows "quadratic_form A (map v [0..<n]) = (\<Sum>a<n. v a * (\<Sum>b<n. A ! a ! b * v b))"
proof -
  have "quadratic_form A (map v [0..<n])
      = (\<Sum>a = 0..<n. map v [0..<n] ! a * (\<Sum>b = 0..<n. A ! a ! b * map v [0..<n] ! b))"
    using assms by (simp add: quadratic_form_def sum_list_upt_sum_real)
  also have "\<dots> = (\<Sum>a = 0..<n. v a * (\<Sum>b = 0..<n. A ! a ! b * v b))"
    by (intro sum.cong refl arg_cong2[where f = "(*)"]) simp_all
  finally show ?thesis by (simp add: atLeast0LessThan)
qed

lemma positive_definite_fun:
  assumes "positive_definite n A" "length A = n" "\<exists>a<n. v a \<noteq> 0"
  shows "0 < (\<Sum>a<n. v a * (\<Sum>b<n. A ! a ! b * v b))"
proof -
  have "\<exists>i<n. map v [0..<n] ! i \<noteq> 0" using assms(3) by auto
  then have "0 < quadratic_form A (map v [0..<n])"
    using assms(1) by (simp add: positive_definite_def)
  then show ?thesis using quadratic_form_fun[OF assms(2)] by simp
qed

lemma chol_all_real:
  assumes "chol_inv n A L i j" "chol_real n L i j" "a < n" "b < n"
  shows "L ! a ! b \<in> \<real>"
proof (cases "processed i j a b")
  case True
  then show ?thesis using assms by (simp add: chol_real_def)
next
  case False
  then have "L ! a ! b = 0" using assms by (auto simp: chol_inv_def)
  then show ?thesis by simp
qed

lemma spd_entry_off:
  assumes sq: "square_matrix n A"
    and inv: "chol_inv n A L i j" and re: "chol_real n L i j" and i: "i < n" and j: "j < i"
  shows "\<exists>v. cholesky_entry A L i j = Inr v \<and> v \<in> \<real>"
proof -
  have jn: "j < n" using i j by simp
  have "processed i j j j" using j by (simp add: processed_def)
  then have "0 < Re (L ! j ! j)" using re jn by (simp add: chol_real_def)
  then have nz: "L ! j ! j \<noteq> 0" by auto
  have real: "\<And>a b. a < n \<Longrightarrow> b < n \<Longrightarrow> L ! a ! b \<in> \<real>"
    using chol_all_real[OF inv re] by simp
  have len: "length (A ! i) = n" using sq i by (simp add: square_matrix_def)
  let ?v = "(of_real (A ! i ! j) - (\<Sum>k = 0..<j. L ! i ! k * L ! j ! k)) / L ! j ! j"
  have "(\<Sum>k = 0..<j. L ! i ! k * L ! j ! k) \<in> \<real>"
    by (rule sum_in_Reals, rule Reals_mult) (use real i jn in auto)
  then have "?v \<in> \<real>"
    using real[OF jn jn] by (intro Reals_divide Reals_diff) simp_all
  moreover have "cholesky_entry A L i j = Inr ?v"
    using len nz j jn by (simp add: cholesky_entry_def sum_list_upt_sum)
  ultimately show ?thesis by blast
qed


lemma chol_realD:
  assumes "chol_real n L i j" "a < n" "b < n" "processed i j a b"
  shows "L ! a ! b \<in> \<real>" "a = b \<Longrightarrow> 0 < Re (L ! a ! b)"
  using assms unfolding chol_real_def by blast+

lemma spd_entry_diag:
  assumes sq: "square_matrix n A" and sym: "symmetric_matrix n A" and pd: "positive_definite n A"
    and inv: "chol_inv n A L i i" and re: "chol_real n L i i" and i: "i < n"
  shows "\<exists>r. 0 < r \<and> cholesky_entry A L i i = Inr (of_real (sqrt r))"
proof -
  define M where "M a b = Re (L ! a ! b)" for a b
  have lenA: "length A = n" and len: "length (A ! i) = n"
    using sq i by (simp_all add: square_matrix_def)
  have LM: "L ! a ! b = of_real (M a b)" if "a < n" "b < n" for a b
    using chol_all_real[OF inv re that] by (simp add: M_def)
  have gram_le: "(\<Sum>k<i. M a k * M b k) = A ! a ! b" if a: "a \<le> i" and b: "b \<le> a" and bi: "b < i" for a b
  proof -
    have an: "a < n" using a i by simp
    have bn: "b < n" using bi i by simp
    have pr: "processed i i a b" using a b bi by (auto simp: processed_def)
    have "(\<Sum>k = 0..<i. L ! a ! k * L ! b ! k) = of_real (A ! a ! b)"
      using chol_inv_gram[OF inv an b pr bi] i by simp
    moreover have "(\<Sum>k = 0..<i. L ! a ! k * L ! b ! k) = (\<Sum>k = 0..<i. of_real (M a k * M b k))"
      by (rule sum.cong) (use LM an bn i in auto)
    ultimately have "complex_of_real (\<Sum>k = 0..<i. M a k * M b k) = of_real (A ! a ! b)"
      by simp
    then show ?thesis
      unfolding of_real_eq_iff by (simp add: atLeast0LessThan)
  qed
  have gram: "\<forall>a\<le>i. \<forall>b\<le>i. \<not> (a = i \<and> b = i) \<longrightarrow> (\<Sum>k<i. M a k * M b k) = A ! a ! b"
  proof (intro allI impI)
    fix a b assume a: "a \<le> i" and b: "b \<le> i" and ne: "\<not> (a = i \<and> b = i)"
    show "(\<Sum>k<i. M a k * M b k) = A ! a ! b"
    proof (cases "b \<le> a")
      case True
      then have "b < i" using a b ne by auto
      then show ?thesis using gram_le[OF a True] by simp
    next
      case False
      then have ab: "a \<le> b" and ai: "a < i" using b by auto
      have "(\<Sum>k<i. M b k * M a k) = A ! b ! a"
        using gram_le[OF b ab ai] .
      moreover have "A ! b ! a = A ! a ! b"
        using sym a b i by (simp add: symmetric_matrix_def)
      ultimately show ?thesis by (simp add: mult.commute)
    qed
  qed
  have tri: "\<forall>k<i. \<forall>a<k. M a k = 0"
  proof (intro allI impI)
    fix k a assume k: "k < i" and a: "a < k"
    have "\<not> processed i i a k" using a k by (auto simp: processed_def)
    then have "L ! a ! k = 0" using inv a k i by (auto simp: chol_inv_def)
    then show "M a k = 0" by (simp add: M_def)
  qed
  have diag: "\<forall>a<i. M a a \<noteq> 0"
  proof (intro allI impI)
    fix a assume a: "a < i"
    have "processed i i a a" using a by (simp add: processed_def)
    moreover have "a < n" using a i by simp
    ultimately have "0 < Re (L ! a ! a)" using chol_realD(2)[OF re] by blast
    then show "M a a \<noteq> 0" by (simp add: M_def)
  qed
  define r where "r = A ! i ! i - (\<Sum>k<i. (M i k)\<^sup>2)"
  have rpos: "0 < r"
    unfolding r_def
    using radicand_pos[OF i gram tri diag positive_definite_fun[OF pd lenA]] by simp
  have "(\<Sum>k = 0..<i. (L ! i ! k)\<^sup>2) = (\<Sum>k = 0..<i. of_real ((M i k)\<^sup>2))"
    by (rule sum.cong) (use LM i in auto)
  then have "of_real (A ! i ! i) - (\<Sum>k = 0..<i. (L ! i ! k)\<^sup>2) = complex_of_real r"
    by (simp add: r_def atLeast0LessThan)
  then have "cholesky_entry A L i i = Inr (csqrt (complex_of_real r))"
    using len i by (simp add: cholesky_entry_def sum_list_upt_sum)
  then have "cholesky_entry A L i i = Inr (of_real (sqrt r))"
    using rpos by (simp add: csqrt_of_real)
  then show ?thesis using rpos by blast
qed

lemma spd_entry:
  assumes sq: "square_matrix n A" and sym: "symmetric_matrix n A" and pd: "positive_definite n A"
    and inv: "chol_inv n A L i j" and re: "chol_real n L i j" and i: "i < n" and j: "j \<le> i"
  shows "\<exists>v. cholesky_entry A L i j = Inr v \<and> v \<in> \<real> \<and> (j = i \<longrightarrow> 0 < Re v)"
proof (cases "j = i")
  case True
  obtain r where "0 < r" "cholesky_entry A L i i = Inr (of_real (sqrt r))"
    using spd_entry_diag[OF sq sym pd _ _ i, of L] inv re True by auto
  then show ?thesis using True by auto
next
  case False
  then have "j < i" using j by simp
  then show ?thesis
    using spd_entry_off[OF sq inv re i] False by auto
qed

lemma chol_real_step:
  assumes sqL: "square_matrix n L" and re: "chol_real n L i j" and i: "i < n" and j: "j \<le> i"
    and v: "v \<in> \<real>" "j = i \<longrightarrow> 0 < Re v"
  shows "chol_real n (L[i := (L ! i)[j := v]]) i (Suc j)"
proof -
  have jn: "j < n" using i j by simp
  have "L[i := (L ! i)[j := v]] ! a ! b \<in> \<real>
      \<and> (a = b \<longrightarrow> 0 < Re (L[i := (L ! i)[j := v]] ! a ! b))"
    if a: "a < n" and b: "b < n" and pr: "processed i (Suc j) a b" for a b
  proof (cases "a = i \<and> b = j")
    case True
    then show ?thesis using update_entry[OF sqL i jn a b] v by auto
  next
    case False
    then have "processed i j a b" using pr by (auto simp: processed_def)
    then have "L ! a ! b \<in> \<real> \<and> (a = b \<longrightarrow> 0 < Re (L ! a ! b))"
      using chol_realD[OF re a b] by blast
    then show ?thesis using update_entry[OF sqL i jn a b] False by auto
  qed
  then show ?thesis by (simp add: chol_real_def)
qed

lemma spd_row:
  assumes sq: "square_matrix n A" and sym: "symmetric_matrix n A" and pd: "positive_definite n A"
    and "chol_inv n A L i j" "chol_real n L i j" "i < n" "j \<le> Suc i"
  shows "\<exists>L'. cholesky_row A L i [j..<Suc i] = Inr L'
            \<and> chol_inv n A L' (Suc i) 0 \<and> chol_real n L' (Suc i) 0"
  using assms(4-)
proof (induction "Suc i - j" arbitrary: j L)
  case 0
  then have "j = Suc i" by simp
  then show ?case
    using "0.prems" by (simp add: chol_inv_next_row chol_real_def processed_next_row)
next
  case (Suc d)
  then have le: "j \<le> i" by simp
  then have upt: "[j..<Suc i] = j # [Suc j..<Suc i]" by (simp add: upt_conv_Cons)
  obtain v where v: "cholesky_entry A L i j = Inr v" "v \<in> \<real>" "j = i \<longrightarrow> 0 < Re v"
    using spd_entry[OF sq sym pd Suc.prems(1,2,3) le] by blast
  let ?L = "L[i := (L ! i)[j := v]]"
  have inv': "chol_inv n A ?L i (Suc j)"
    using chol_inv_step[OF Suc.prems(1,3) le v(1)] .
  have sqL: "square_matrix n L" using Suc.prems(1) by (simp add: chol_inv_def)
  have re': "chol_real n ?L i (Suc j)"
    using chol_real_step[OF sqL Suc.prems(2,3) le v(2,3)] .
  have "\<exists>L'. cholesky_row A ?L i [Suc j..<Suc i] = Inr L'
            \<and> chol_inv n A L' (Suc i) 0 \<and> chol_real n L' (Suc i) 0"
    using Suc.hyps(1)[of "Suc j" ?L] Suc.hyps(2) inv' re' Suc.prems(3) le by simp
  then show ?case unfolding upt using v(1) by simp
qed

lemma spd_rows:
  assumes sq: "square_matrix n A" and sym: "symmetric_matrix n A" and pd: "positive_definite n A"
    and "chol_inv n A L i 0" "chol_real n L i 0" "i \<le> n"
  shows "\<exists>L'. cholesky_rows A L [i..<n] = Inr L'
            \<and> chol_inv n A L' n 0 \<and> chol_real n L' n 0"
  using assms(4-)
proof (induction "n - i" arbitrary: i L)
  case 0
  then show ?case by simp
next
  case (Suc d)
  then have lt: "i < n" by simp
  then have upt: "[i..<n] = i # [Suc i..<n]" by (simp add: upt_conv_Cons)
  obtain L1 where L1: "cholesky_row A L i [0..<Suc i] = Inr L1"
    "chol_inv n A L1 (Suc i) 0" "chol_real n L1 (Suc i) 0"
    using spd_row[OF sq sym pd Suc.prems(1,2) lt] by auto
  have "\<exists>L'. cholesky_rows A L1 [Suc i..<n] = Inr L'
            \<and> chol_inv n A L' n 0 \<and> chol_real n L' n 0"
    using Suc.hyps(1)[of "Suc i" L1] Suc.hyps(2) L1 lt by simp
  then show ?case unfolding upt using L1(1) by simp
qed

lemma spd_factor:
  assumes sq: "square_matrix n A" and sym: "symmetric_matrix n A" and pd: "positive_definite n A"
  shows "\<exists>L. cholesky_factor A = Inr L \<and> chol_inv n A L n 0 \<and> chol_real n L n 0"
proof -
  have len: "length A = n" using sq by (simp add: square_matrix_def)
  have "chol_real n (replicate n (replicate n 0)) 0 0"
    by (simp add: chol_real_def processed_def)
  then show ?thesis
    using spd_rows[OF sq sym pd chol_inv_init] len
    by (simp add: cholesky_factor_def Let_def)
qed


text \<open>
  C2. For an \<open>n \<times> n\<close> matrix \<open>A\<close> that is symmetric and positive definite, the
  factorisation loops return a factor with real entries, \<open>L = R\<close> embedded in the complex
  numbers, with positive diagonal \<open>R[i][i] = sqrt (A[i][i] - \<Sum>k<i. R[i][k]\<^sup>2)\<close>, with
  \<open>R[i][j] = (A[i][j] - \<Sum>k<j. R[i][k] * R[j][k]) / R[j][j]\<close> for \<open>j < i\<close>, zero above the
  diagonal, and \<open>R R\<^sup>T = A\<close>. Arithmetic is exact, so the product is equal to \<open>A\<close>, not
  only within a tolerance.
\<close>

theorem cholesky_factor_spd:
  assumes sq: "square_matrix n A" and sym: "symmetric_matrix n A" and pd: "positive_definite n A"
  shows "\<exists>R. cholesky_factor A = Inr (map (map complex_of_real) R) \<and> square_matrix n R
     \<and> (\<forall>i<n. 0 < R ! i ! i \<and> R ! i ! i = sqrt (A ! i ! i - (\<Sum>k = 0..<i. (R ! i ! k)\<^sup>2)))
     \<and> (\<forall>i<n. \<forall>j<i. R ! i ! j = (A ! i ! j - (\<Sum>k = 0..<j. R ! i ! k * R ! j ! k)) / R ! j ! j)
     \<and> (\<forall>i<n. \<forall>j<n. i < j \<longrightarrow> R ! i ! j = 0)
     \<and> (\<forall>i<n. \<forall>j<n. (\<Sum>k = 0..<n. R ! i ! k * R ! j ! k) = A ! i ! j)"
proof -
  obtain L where f: "cholesky_factor A = Inr L"
    and inv: "chol_inv n A L n 0" and re: "chol_real n L n 0"
    using spd_factor[OF sq sym pd] by blast
  have lenA: "length A = n" using sq by (simp add: square_matrix_def)
  have sqL: "square_matrix n L" using inv by (simp add: chol_inv_def)
  then have lenL: "length L = n" and rowL: "\<And>i. i < n \<Longrightarrow> length (L ! i) = n"
    by (simp_all add: square_matrix_def)
  define R where "R = map (map Re) L"
  have sqR: "square_matrix n R"
    using sqL by (auto simp: R_def square_matrix_def)
  have Rnth: "R ! i ! j = Re (L ! i ! j)" if "i < n" "j < n" for i j
    using that lenL rowL by (simp add: R_def)
  have LR: "L ! i ! j = of_real (R ! i ! j)" if "i < n" "j < n" for i j
    using chol_all_real[OF inv re that] Rnth[OF that] by simp
  have Leq: "L = map (map complex_of_real) R"
  proof (rule nth_equalityI)
    show "length L = length (map (map complex_of_real) R)"
      by (simp add: R_def)
  next
    fix i assume "i < length L"
    then have i: "i < n" using lenL by simp
    have "L ! i = map complex_of_real (R ! i)"
    proof (rule nth_equalityI)
      show "length (L ! i) = length (map complex_of_real (R ! i))"
        using i lenL by (simp add: R_def)
    next
      fix j assume "j < length (L ! i)"
      then have j: "j < n" using rowL[OF i] by simp
      have "length (R ! i) = n" using i lenL rowL by (simp add: R_def)
      then show "L ! i ! j = map complex_of_real (R ! i) ! j"
        using LR[OF i j] j by simp
    qed
    then show "L ! i = map (map complex_of_real) R ! i"
      using i lenL by (simp add: R_def)
  qed
  have diag: "0 < R ! i ! i \<and> R ! i ! i = sqrt (A ! i ! i - (\<Sum>k = 0..<i. (R ! i ! k)\<^sup>2))"
    if i: "i < n" for i
  proof -
    have pr: "processed n 0 i i" using i by (simp add: processed_def)
    have pos: "0 < R ! i ! i"
      using chol_realD(2)[OF re i i pr] Rnth[OF i i] by simp
    have "chol_eqn A L i i" using chol_inv_lower_eqn[OF inv i] by simp
    then have "(L ! i ! i)\<^sup>2 = of_real (A ! i ! i) - (\<Sum>k = 0..<i. (L ! i ! k)\<^sup>2)"
      by (simp add: chol_eqn_def sum_list_upt_sum del: csqrt_of_real_nonneg csqrt_of_real_nonpos)
    moreover have "(\<Sum>k = 0..<i. (L ! i ! k)\<^sup>2) = (\<Sum>k = 0..<i. of_real ((R ! i ! k)\<^sup>2))"
      by (rule sum.cong) (use LR i in auto)
    ultimately have "complex_of_real ((R ! i ! i)\<^sup>2)
        = of_real (A ! i ! i - (\<Sum>k = 0..<i. (R ! i ! k)\<^sup>2))"
      using LR[OF i i] by simp
    then have "(R ! i ! i)\<^sup>2 = A ! i ! i - (\<Sum>k = 0..<i. (R ! i ! k)\<^sup>2)"
      unfolding of_real_eq_iff .
    then have "sqrt (A ! i ! i - (\<Sum>k = 0..<i. (R ! i ! k)\<^sup>2)) = R ! i ! i"
      using pos by (intro real_sqrt_unique) simp_all
    then show ?thesis using pos by simp
  qed
  have off: "R ! i ! j = (A ! i ! j - (\<Sum>k = 0..<j. R ! i ! k * R ! j ! k)) / R ! j ! j"
    if i: "i < n" and j: "j < i" for i j
  proof -
    have jn: "j < n" using i j by simp
    have "chol_eqn A L i j" using chol_inv_lower_eqn[OF inv i] j by simp
    then have "L ! i ! j = (of_real (A ! i ! j) - (\<Sum>k = 0..<j. L ! i ! k * L ! j ! k)) / L ! j ! j"
      using j by (simp add: chol_eqn_def sum_list_upt_sum)
    moreover have "(\<Sum>k = 0..<j. L ! i ! k * L ! j ! k) = (\<Sum>k = 0..<j. of_real (R ! i ! k * R ! j ! k))"
      by (rule sum.cong) (use LR i jn in auto)
    ultimately have "complex_of_real (R ! i ! j)
        = of_real ((A ! i ! j - (\<Sum>k = 0..<j. R ! i ! k * R ! j ! k)) / R ! j ! j)"
      using LR[OF i jn] LR[OF jn jn] by simp
    then show ?thesis unfolding of_real_eq_iff .
  qed
  have up: "R ! i ! j = 0" if "i < n" "j < n" "i < j" for i j
    using chol_inv_upper_zero[OF inv that] Rnth[OF that(1,2)] by simp
  have prod: "(\<Sum>k = 0..<n. R ! i ! k * R ! j ! k) = A ! i ! j" if i: "i < n" and j: "j < n" for i j
  proof -
    have "(\<Sum>k = 0..<n. L ! i ! k * L ! j ! k) = of_real (A ! i ! j)"
      using factor_product[OF f lenA _ i j] sym by (simp add: symmetric_matrix_def)
    moreover have "(\<Sum>k = 0..<n. L ! i ! k * L ! j ! k) = (\<Sum>k = 0..<n. of_real (R ! i ! k * R ! j ! k))"
      by (rule sum.cong) (use LR i j in auto)
    ultimately have "complex_of_real (\<Sum>k = 0..<n. R ! i ! k * R ! j ! k) = of_real (A ! i ! j)"
      by simp
    then show ?thesis unfolding of_real_eq_iff .
  qed
  show ?thesis
    using f Leq sqR diag off up prod by blast
qed

lemma positive_definite_2x2: "positive_definite 2 [[4, 2], [2, 10]]"
  unfolding positive_definite_def
proof (intro allI impI)
  fix v :: "real list"
  assume h: "length v = 2 \<and> (\<exists>i<2. v ! i \<noteq> 0)"
  then obtain x y where v: "v = [x, y]"
    by (auto simp: length_Suc_conv numeral_2_eq_2)
  have ne: "x \<noteq> 0 \<or> y \<noteq> 0"
    using h unfolding v by (auto simp: less_Suc_eq numeral_2_eq_2)
  have "quadratic_form [[4, 2], [2, 10]] v = (2 * x + y)\<^sup>2 + 9 * y\<^sup>2"
    unfolding v by (simp add: quadratic_form_def upt_rec numeral_2_eq_2 power2_eq_square algebra_simps)
  moreover have "0 < (2 * x + y)\<^sup>2 + 9 * y\<^sup>2"
  proof (cases "y = 0")
    case True
    then show ?thesis using ne by simp
  next
    case False
    then have "0 < 9 * y\<^sup>2" by simp
    moreover have "0 \<le> (2 * x + y)\<^sup>2" by simp
    ultimately show ?thesis by linarith
  qed
  ultimately show "0 < quadratic_form [[4, 2], [2, 10]] v" by simp
qed

theorem cholesky_factor_spd_witness:
  "square_matrix 2 [[4, 2], [2, 10 :: real]] \<and> symmetric_matrix 2 [[4, 2], [2, 10]]
   \<and> positive_definite 2 [[4, 2], [2, 10]]
   \<and> (\<exists>R. cholesky_factor [[4, 2], [2, 10]] = Inr (map (map complex_of_real) R)
         \<and> (\<forall>i<2. \<forall>j<2. (\<Sum>k = 0..<2. R ! i ! k * R ! j ! k) = [[4, 2], [2, 10]] ! i ! j))"
proof -
  have sq: "square_matrix 2 [[4, 2], [2, 10 :: real]]"
    by (simp add: square_matrix_def)
  have sym: "symmetric_matrix 2 [[4, 2], [2, 10]]"
    by (simp add: symmetric_matrix_def less_Suc_eq numeral_2_eq_2)
  show ?thesis
    using cholesky_factor_spd[OF sq sym positive_definite_2x2] sq sym positive_definite_2x2
    by blast
qed


lemma four_squares_pos:
  fixes p q r s :: real
  assumes "p \<noteq> 0 \<or> q \<noteq> 0 \<or> r \<noteq> 0 \<or> s \<noteq> 0"
  shows "0 < p\<^sup>2 + q\<^sup>2 + r\<^sup>2 + s\<^sup>2"
proof -
  have "0 \<le> p\<^sup>2" "0 \<le> q\<^sup>2" "0 \<le> r\<^sup>2" "0 \<le> s\<^sup>2" by simp_all
  moreover have "0 < p\<^sup>2 \<or> 0 < q\<^sup>2 \<or> 0 < r\<^sup>2 \<or> 0 < s\<^sup>2" using assms by auto
  ultimately show ?thesis by linarith
qed

lemma random_vector_4:
  "random_vector u 4 k =
     ([- 1 + 2 * u k, - 1 + 2 * u (k + 1), - 1 + 2 * u (k + 2), - 1 + 2 * u (k + 3)], k + 4)"
  by (simp add: random_vector_eq upt_rec eval_nat_numeral)

lemma sample_nonzero:
  fixes u :: "nat \<Rightarrow> real"
  assumes "\<exists>i<4. u (k + i) \<noteq> 1 / 2"
  shows "- 1 + 2 * u k \<noteq> 0 \<or> - 1 + 2 * u (k + 1) \<noteq> 0
       \<or> - 1 + 2 * u (k + 2) \<noteq> 0 \<or> - 1 + 2 * u (k + 3) \<noteq> 0"
proof -
  obtain i where i: "i < 4" "u (k + i) \<noteq> 1 / 2" using assms by blast
  then have "i = 0 \<or> i = 1 \<or> i = 2 \<or> i = 3" by auto
  then show ?thesis using i(2) by auto
qed

lemma quadratic_form_first:
  "quadratic_form [[1, - 1, 3, 2], [- 1, 5, - 5, - 2], [3, - 5, 19, 3], [2, - 2, 3, 21]] [a, b, c, d]
     = (a - b + 3 * c + 2 * d)\<^sup>2 + (2 * b - c)\<^sup>2 + (3 * c - d)\<^sup>2 + (4 * d)\<^sup>2"
  by (simp add: quadratic_form_def upt_rec eval_nat_numeral power2_eq_square algebra_simps)

lemma quadratic_form_second:
  "quadratic_form [[4, 2, 4, 0], [2, 2, 3, 2], [4, 3, 6, 3], [0, 2, 3, 9]] [a, b, c, d]
     = (2 * a + b + 2 * c)\<^sup>2 + (b + c + 2 * d)\<^sup>2 + (c + d)\<^sup>2 + (2 * d)\<^sup>2"
  by (simp add: quadratic_form_def upt_rec eval_nat_numeral power2_eq_square algebra_simps)

lemma quadratic_form_first_pos:
  assumes "a \<noteq> 0 \<or> b \<noteq> 0 \<or> c \<noteq> 0 \<or> d \<noteq> 0"
  shows "0 < quadratic_form [[1, - 1, 3, 2], [- 1, 5, - 5, - 2], [3, - 5, 19, 3], [2, - 2, 3, 21]] [a, b, c, d]"
proof -
  have "a - b + 3 * c + 2 * d \<noteq> 0 \<or> 2 * b - c \<noteq> 0 \<or> 3 * c - d \<noteq> 0 \<or> 4 * d \<noteq> 0"
    using assms by auto
  then show ?thesis
    unfolding quadratic_form_first by (rule four_squares_pos)
qed

lemma quadratic_form_second_pos:
  assumes "a \<noteq> 0 \<or> b \<noteq> 0 \<or> c \<noteq> 0 \<or> d \<noteq> 0"
  shows "0 < quadratic_form [[4, 2, 4, 0], [2, 2, 3, 2], [4, 3, 6, 3], [0, 2, 3, 9]] [a, b, c, d]"
proof -
  have "2 * a + b + 2 * c \<noteq> 0 \<or> b + c + 2 * d \<noteq> 0 \<or> c + d \<noteq> 0 \<or> 2 * d \<noteq> 0"
    using assms by auto
  then show ?thesis
    unfolding quadratic_form_second by (rule four_squares_pos)
qed

lemma separate_first:
  "separateAugmented [[1, - 1, 3, 2, 15], [- 1, 5, - 5, - 2, - 35], [3, - 5, 19, 3, 94], [2, - 2, 3, 21, 1]]
     = Inr ([[1, - 1, 3, 2], [- 1, 5, - 5, - 2], [3, - 5, 19, 3], [2, - 2, 3, 21]],
            Flat [15, - 35, 94, 1])"
  by (simp add: separateAugmented_def)

lemma separate_second:
  "separateAugmented [[4, 2, 4, 0, 20], [2, 2, 3, 2, 36], [4, 3, 6, 3, 60], [0, 2, 3, 9, 122]]
     = Inr ([[4, 2, 4, 0], [2, 2, 3, 2], [4, 3, 6, 3], [0, 2, 3, 9]], Flat [20, 36, 60, 122])"
  by (simp add: separateAugmented_def)

lemma transpose_first:
  "compute_transpose [[1, - 1, 3, 2], [- 1, 5, - 5, - 2], [3, - 5, 19, 3], [2, - 2, 3, 21 :: real]]
     = Inr [[1, - 1, 3, 2], [- 1, 5, - 5, - 2], [3, - 5, 19, 3], [2, - 2, 3, 21]]"
  by (simp add: compute_transpose_def upt_rec eval_nat_numeral)

lemma transpose_second:
  "compute_transpose [[4, 2, 4, 0], [2, 2, 3, 2], [4, 3, 6, 3], [0, 2, 3, 9 :: real]]
     = Inr [[4, 2, 4, 0], [2, 2, 3, 2], [4, 3, 6, 3], [0, 2, 3, 9]]"
  by (simp add: compute_transpose_def upt_rec eval_nat_numeral)

lemma factor_first:
  "cholesky_factor [[1, - 1, 3, 2], [- 1, 5, - 5, - 2], [3, - 5, 19, 3], [2, - 2, 3, 21]]
     = Inr [[1, 0, 0, 0], [- 1, 2, 0, 0], [3, - 1, 3, 0], [2, 0, - 1, 4]]"
  by (simp add: cholesky_factor_def cholesky_entry_def upt_rec csqrt_4 csqrt_9 csqrt_16
      eval_nat_numeral del: csqrt_of_real_nonneg csqrt_of_real_nonpos)

lemma factor_second:
  "cholesky_factor [[4, 2, 4, 0], [2, 2, 3, 2], [4, 3, 6, 3], [0, 2, 3, 9]]
     = Inr [[2, 0, 0, 0], [1, 1, 0, 0], [2, 1, 1, 0], [0, 2, 1, 2]]"
  by (simp add: cholesky_factor_def cholesky_entry_def upt_rec csqrt_4 csqrt_9 csqrt_16
      eval_nat_numeral del: csqrt_of_real_nonneg csqrt_of_real_nonpos)

lemma decompose_first:
  "decompose_cholesky separateAugmented
     [[1, - 1, 3, 2, 15], [- 1, 5, - 5, - 2, - 35], [3, - 5, 19, 3, 94], [2, - 2, 3, 21, 1]]
     = Inr ([2, - 3, 4, - 1],
            [[1, 0, 0, 0], [- 1, 2, 0, 0], [3, - 1, 3, 0], [2, 0, - 1, 4]],
            [[1, - 1, 3, 2], [0, 2, - 1, 0], [0, 0, 3, - 1], [0, 0, 0, 4]])"
  by (simp add: decompose_cholesky_def separate_first factor_first compute_transpose_def
      forward_substitution_def backward_substitution_def upt_rec eval_nat_numeral)

lemma decompose_second:
  "decompose_cholesky separateAugmented
     [[4, 2, 4, 0, 20], [2, 2, 3, 2, 36], [4, 3, 6, 3, 60], [0, 2, 3, 9, 122]]
     = Inr ([6, - 2, 0, 14],
            [[2, 0, 0, 0], [1, 1, 0, 0], [2, 1, 1, 0], [0, 2, 1, 2]],
            [[2, 1, 2, 0], [0, 1, 1, 2], [0, 0, 1, 1], [0, 0, 0, 2]])"
  by (simp add: decompose_cholesky_def separate_second factor_second compute_transpose_def
      forward_substitution_def backward_substitution_def upt_rec eval_nat_numeral)


lemma check_first:
  fixes u :: "nat \<Rightarrow> real"
  assumes "\<exists>i<4. u (k + i) \<noteq> 1 / 2"
  shows "check_symmetric_positive_definite u
           [[1, - 1, 3, 2], [- 1, 5, - 5, - 2], [3, - 5, 19, 3], [2, - 2, 3, 21]] k
         = Inr (True, k + 4)"
proof -
  have len: "length [[1, - 1, 3, 2], [- 1, 5, - 5, - 2], [3, - 5, 19, 3], [2, - 2, 3, 21 :: real]] = 4"
    by simp
  show ?thesis
    unfolding check_symmetric_positive_definite_def transpose_first len random_vector_4
    using quadratic_form_first_pos[OF sample_nonzero[OF assms]] by simp
qed

lemma check_second:
  fixes u :: "nat \<Rightarrow> real"
  assumes "\<exists>i<4. u (k + i) \<noteq> 1 / 2"
  shows "check_symmetric_positive_definite u
           [[4, 2, 4, 0], [2, 2, 3, 2], [4, 3, 6, 3], [0, 2, 3, 9]] k
         = Inr (True, k + 4)"
proof -
  have len: "length [[4, 2, 4, 0], [2, 2, 3, 2], [4, 3, 6, 3], [0, 2, 3, 9 :: real]] = 4"
    by simp
  show ?thesis
    unfolding check_symmetric_positive_definite_def transpose_second len random_vector_4
    using quadratic_form_second_pos[OF sample_nonzero[OF assms]] by simp
qed

lemma solve_first:
  fixes u :: "nat \<Rightarrow> real"
  assumes "\<exists>i<4. u (k + i) \<noteq> 1 / 2"
  shows "solve_matrix separateAugmented Doolittle u
           [[1, - 1, 3, 2, 15], [- 1, 5, - 5, - 2, - 35], [3, - 5, 19, 3, 94], [2, - 2, 3, 21, 1]] k
         = Inr (([2, - 3, 4, - 1], ''Cholesky''), k + 4)"
  by (simp add: solve_matrix_def separate_first check_first[OF assms] decompose_first)

lemma solve_second:
  fixes u :: "nat \<Rightarrow> real"
  assumes "\<exists>i<4. u (k + i) \<noteq> 1 / 2"
  shows "solve_matrix separateAugmented Doolittle u
           [[4, 2, 4, 0, 20], [2, 2, 3, 2, 36], [4, 3, 6, 3, 60], [0, 2, 3, 9, 122]] k
         = Inr (([6, - 2, 0, 14], ''Cholesky''), k + 4)"
  by (simp add: solve_matrix_def separate_second check_second[OF assms] decompose_second)

text \<open>
  C8, as the code has it. The coefficient blocks of both example systems are symmetric
  and positive definite. Whenever neither sampled vector is all zero (some
  \<open>random()\<close> of each group of four differs from \<open>1/2\<close>), \<open>execute_main\<close> sends both
  systems to Cholesky and prints \<open>x = [2, -3, 4, -1]\<close> and \<open>x = [6, -2, 0, 14]\<close>, and
  each \<open>x\<close> satisfies \<open>A x = b\<close> exactly.
\<close>

theorem examples_both_cholesky:
  fixes u :: "nat \<Rightarrow> real"
  assumes "\<exists>i<4. u (k + i) \<noteq> 1 / 2" "\<exists>i<4. u (k + 4 + i) \<noteq> 1 / 2"
  shows "execute_main separateAugmented Doolittle u k =
           ([(1, ''Cholesky'', [2, - 3, 4, - 1]), (2, ''Cholesky'', [6, - 2, 0, 14])], None)
       \<and> map (\<lambda>row. \<Sum>j\<leftarrow>[0..<4]. row ! j * [2, - 3, 4, - 1] ! j)
            [[1, - 1, 3, 2], [- 1, 5, - 5, - 2], [3, - 5, 19, 3], [2, - 2, 3, 21 :: real]]
           = [15, - 35, 94, 1]
       \<and> map (\<lambda>row. \<Sum>j\<leftarrow>[0..<4]. row ! j * [6, - 2, 0, 14] ! j)
            [[4, 2, 4, 0], [2, 2, 3, 2], [4, 3, 6, 3], [0, 2, 3, 9 :: real]]
           = [20, 36, 60, 122]"
proof -
  have z: "zip [1..<Suc (length matrices)] matrices =
      [(1, [[1, - 1, 3, 2, 15], [- 1, 5, - 5, - 2, - 35], [3, - 5, 19, 3, 94], [2, - 2, 3, 21, 1]]),
       (2, [[4, 2, 4, 0, 20], [2, 2, 3, 2, 36], [4, 3, 6, 3, 60], [0, 2, 3, 9, 122]])]"
    by (simp add: matrices_def upt_rec)
  have run: "execute_main separateAugmented Doolittle u k =
           ([(1, ''Cholesky'', [2, - 3, 4, - 1]), (2, ''Cholesky'', [6, - 2, 0, 14])], None)"
    unfolding execute_main_def z
    using solve_first[OF assms(1), of Doolittle] solve_second[OF assms(2), of Doolittle]
    by simp
  have a1: "map (\<lambda>row. \<Sum>j\<leftarrow>[0..<4]. row ! j * [2, - 3, 4, - 1] ! j)
            [[1, - 1, 3, 2], [- 1, 5, - 5, - 2], [3, - 5, 19, 3], [2, - 2, 3, 21 :: real]]
           = [15, - 35, 94, 1]"
    by (simp add: upt_rec eval_nat_numeral)
  have a2: "map (\<lambda>row. \<Sum>j\<leftarrow>[0..<4]. row ! j * [6, - 2, 0, 14] ! j)
            [[4, 2, 4, 0], [2, 2, 3, 2], [4, 3, 6, 3], [0, 2, 3, 9 :: real]]
           = [20, 36, 60, 122]"
    by (simp add: upt_rec eval_nat_numeral)
  show ?thesis using run a1 a2 by blast
qed

theorem examples_both_cholesky_witness:
  "(\<exists>i<4 :: nat. (3 / 4 :: real) \<noteq> 1 / 2)
   \<and> execute_main separateAugmented (\<lambda>m. Inr []) (\<lambda>m. 3 / 4) 0 =
           ([(1, ''Cholesky'', [2, - 3, 4, - 1]), (2, ''Cholesky'', [6, - 2, 0, 14])], None)"
proof -
  have h: "\<exists>i<4 :: nat. (3 / 4 :: real) \<noteq> 1 / 2"
    by (rule exI[of _ 0]) simp
  show ?thesis
    using examples_both_cholesky[of "\<lambda>m. 3 / 4" 0 "\<lambda>m. Inr []"] h by simp
qed

text \<open>
  The statement of C8 fails on the data: the coefficient block of the second example
  system is equal to its transpose.
\<close>

theorem second_example_counterexample:
  "separateAugmented [[4, 2, 4, 0, 20], [2, 2, 3, 2, 36], [4, 3, 6, 3, 60], [0, 2, 3, 9, 122]]
     = Inr ([[4, 2, 4, 0], [2, 2, 3, 2], [4, 3, 6, 3], [0, 2, 3, 9]], Flat [20, 36, 60, 122])
   \<and> compute_transpose [[4, 2, 4, 0], [2, 2, 3, 2], [4, 3, 6, 3], [0, 2, 3, 9 :: real]]
     = Inr [[4, 2, 4, 0], [2, 2, 3, 2], [4, 3, 6, 3], [0, 2, 3, 9]]"
  using separate_second transpose_second by simp

end
